theory Spec2Isabelle
  imports Main "HOL-Library.Word"
begin

section \<open>The RLP decoder of \<^verbatim>\<open>runtime/stdlib/rlp/rlp.go\<close>\<close>

subsection \<open>Machine values\<close>

text \<open>
  A Go \<^verbatim>\<open>byte\<close> is an 8-bit word, so byte subtraction wraps as in Go.
  A Go \<^verbatim>\<open>int\<close> is a 64-bit signed integer: it is modelled as an \<^typ>\<open>int\<close>, and
  every addition or subtraction of the source goes through \<open>int64\<close>, which writes the
  two's complement wrap-around out.  A Go \<^verbatim>\<open>uint\<close> is a 64-bit unsigned integer:
  an \<^typ>\<open>int\<close> again, with \<open>uint64\<close> for the wrap-around of its subtraction.
\<close>

type_synonym byte = "8 word"

definition int64 :: "int \<Rightarrow> int" where
  "int64 x = (x + 2 ^ 63) mod 2 ^ 64 - 2 ^ 63"

definition uint64 :: "int \<Rightarrow> int" where
  "uint64 x = x mod 2 ^ 64"

definition len :: "byte list \<Rightarrow> int" where
  "len inp = int (length inp)"

subsection \<open>Errors and run-time panics\<close>

text \<open>
  The eight error values of the package, and the run-time panic of Go for an index or a
  slice expression out of range.
\<close>

datatype rlp_error =
    ErrEmptyInput
  | ErrInvalidStartIndex
  | ErrIncompleteInput
  | ErrNonCanonicalInput
  | ErrDataSizeTooLarge
  | ErrListSizeMismatch
  | ErrInputContainsExtraBytes
  | ErrTypeMismatch

datatype failure = Error rlp_error | Panic

type_synonym 'a result = "failure + 'a"

text \<open>\<^verbatim>\<open>inp[i]\<close>: panics unless \<open>0 \<le> i < len(inp)\<close>.\<close>

definition index :: "byte list \<Rightarrow> int \<Rightarrow> byte result" where
  "index inp i = (if 0 \<le> i \<and> i < len inp then Inr (inp ! nat i) else Inl Panic)"

text \<open>
  \<^verbatim>\<open>inp[lo:hi]\<close> (and \<^verbatim>\<open>inp[lo:]\<close>, with \<open>hi = len(inp)\<close>): panics unless \<open>0 \<le> lo \<le> hi \<le> cap(inp)\<close>.  The capacity of the
  caller's buffer is not visible to the package; the bound used here is the length.  Each
  slice expression of the source stands behind a check \<^verbatim>\<open>hi > len(inp)\<close> that has
  returned an error, so the two bounds never tell a run apart.
\<close>

definition subslice :: "byte list \<Rightarrow> int \<Rightarrow> int \<Rightarrow> byte list result" where
  "subslice inp lo hi =
     (if 0 \<le> lo \<and> lo \<le> hi \<and> hi \<le> len inp
      then Inr (take (nat (hi - lo)) (drop (nat lo) inp))
      else Inl Panic)"

text \<open>\<^verbatim>\<open>copy(dst, src)\<close> overwrites the first \<open>min(len(dst), len(src))\<close> bytes of \<open>dst\<close>.\<close>

definition copy :: "byte list \<Rightarrow> byte list \<Rightarrow> byte list" where
  "copy dst src =
     take (min (length dst) (length src)) src @ drop (min (length dst) (length src)) dst"

text \<open>\<^verbatim>\<open>binary.BigEndian.Uint64\<close> of the Go library, on the eight bytes it is given.\<close>

definition BigEndian_Uint64 :: "byte list \<Rightarrow> int" where
  "BigEndian_Uint64 b = foldl (\<lambda>acc x. acc * 256 + uint x) 0 (take 8 b)"

subsection \<open>Constants\<close>

definition ByteRangeEnd :: byte where "ByteRangeEnd = 0x7f"
definition ShortStringRangeStart :: byte where "ShortStringRangeStart = 0x80"
definition ShortStringRangeEnd :: byte where "ShortStringRangeEnd = 0xb7"
definition LongStringRangeStart :: byte where "LongStringRangeStart = 0xb8"
definition LongStringRangeEnd :: byte where "LongStringRangeEnd = 0xbf"
definition ShortListRangeStart :: byte where "ShortListRangeStart = 0xc0"
definition ShortListRangeEnd :: byte where "ShortListRangeEnd = 0xf7"
definition LongListRangeStart :: byte where "LongListRangeStart = 0xf8"
definition MaxShortLengthAllowed :: int where "MaxShortLengthAllowed = 55"
definition MaxLongLengthAllowed :: int where "MaxLongLengthAllowed = 2 ^ 63 - 1"

subsection \<open>\<^verbatim>\<open>ReadSize\<close>\<close>

text \<open>
  The long-form tail of \<^verbatim>\<open>ReadSize\<close> (source lines 102 to 152): \<open>startIndex\<close> is the
  cursor after the tag byte.
\<close>

definition ReadSize_long :: "byte list \<Rightarrow> int \<Rightarrow> int \<Rightarrow> bool \<Rightarrow> (bool \<times> int \<times> int) result" where
  "ReadSize_long inp startIndex bytesToReadForLen isString =
     (if startIndex \<ge> len inp then Inl (Error ErrIncompleteInput)
      else if bytesToReadForLen = 1 then
        (case index inp startIndex of
           Inl f \<Rightarrow> Inl f
         | Inr b \<Rightarrow>
             let strLen = uint b;
                 startIndex = int64 (startIndex + 1)
             in if strLen \<le> MaxShortLengthAllowed then Inl (Error ErrNonCanonicalInput)
                else Inr (isString, startIndex, int64 strLen))
      else
        let lenData = replicate 8 (0 :: byte);
            start = int64 (uint64 (8 - bytesToReadForLen))
        in (case index inp startIndex of
              Inl f \<Rightarrow> Inl f
            | Inr b0 \<Rightarrow>
                if b0 = 0 then Inl (Error ErrNonCanonicalInput)
                else
                  let endIndex = int64 (startIndex + int64 bytesToReadForLen)
                  in if endIndex > len inp then Inl (Error ErrIncompleteInput)
                     else
                       (case subslice lenData start (len lenData) of
                          Inl f \<Rightarrow> Inl f
                        | Inr dst \<Rightarrow>
                            (case subslice inp startIndex endIndex of
                               Inl f \<Rightarrow> Inl f
                             | Inr src \<Rightarrow>
                                 let lenData = take (nat start) lenData @ copy dst src;
                                     startIndex = int64 (startIndex + int64 bytesToReadForLen);
                                     strLen = BigEndian_Uint64 lenData
                                 in if strLen \<le> MaxShortLengthAllowed
                                    then Inl (Error ErrNonCanonicalInput)
                                    else if strLen > MaxLongLengthAllowed
                                    then Inl (Error ErrDataSizeTooLarge)
                                    else Inr (isString, startIndex, int64 strLen)))))"

definition ReadSize :: "byte list \<Rightarrow> int \<Rightarrow> (bool \<times> int \<times> int) result" where
  "ReadSize inp startIndex =
     (if len inp = 0 then Inl (Error ErrEmptyInput)
      else if startIndex \<ge> len inp then Inl (Error ErrInvalidStartIndex)
      else
        (case index inp startIndex of
           Inl f \<Rightarrow> Inl f
         | Inr firstByte \<Rightarrow>
             let startIndex = int64 (startIndex + 1)
             in if firstByte \<le> ByteRangeEnd then Inr (True, int64 (startIndex - 1), 1)
                else if firstByte \<le> ShortStringRangeEnd then
                  Inr (True, startIndex, int64 (uint (firstByte - ShortStringRangeStart)))
                else if firstByte \<ge> ShortListRangeStart \<and> firstByte \<le> ShortListRangeEnd then
                  Inr (False, startIndex, int64 (uint (firstByte - ShortListRangeStart)))
                else
                  let bytesToReadForLen = (0 :: int);
                      isString = False;
                      (bytesToReadForLen, isString) =
                        (if firstByte \<ge> LongStringRangeStart \<and> firstByte \<le> LongStringRangeEnd
                         then (uint (firstByte - ShortStringRangeEnd), True)
                         else (bytesToReadForLen, isString));
                      (bytesToReadForLen, isString) =
                        (if firstByte \<ge> LongListRangeStart
                         then (uint (firstByte - ShortListRangeEnd), False)
                         else (bytesToReadForLen, isString))
                  in ReadSize_long inp startIndex bytesToReadForLen isString))"

subsection \<open>\<^verbatim>\<open>DecodeString\<close>\<close>

definition DecodeString :: "byte list \<Rightarrow> int \<Rightarrow> byte list result" where
  "DecodeString inp startIndex =
     (case ReadSize inp startIndex of
        Inl f \<Rightarrow> Inl f
      | Inr (isString, dataStartIndex, dataSize) \<Rightarrow>
          if \<not> isString then Inl (Error ErrTypeMismatch)
          else if dataSize = 1 \<and> startIndex = dataStartIndex then
            (if len inp > 1 then Inl (Error ErrInputContainsExtraBytes)
             else (case index inp dataStartIndex of
                     Inl f \<Rightarrow> Inl f
                   | Inr b \<Rightarrow> Inr [b]))
          else
            let dataEndIndex = int64 (dataStartIndex + dataSize)
            in if dataEndIndex > len inp then Inl (Error ErrIncompleteInput)
               else if len inp > dataEndIndex then Inl (Error ErrInputContainsExtraBytes)
               else subslice inp dataStartIndex dataEndIndex)"

section \<open>Notions of the specification\<close>

subsection \<open>The standard RLP encoding\<close>

text \<open>
  The repository has no encoder.  The round-trip law of the specification speaks of
  ``the standard RLP rules'': a single byte up to \<open>0x7F\<close> is its own encoding; a payload
  of up to 55 bytes follows the tag \<open>offset + length\<close>; a longer one follows the tag
  \<open>offset + 55 + n\<close> and the \<open>n\<close> bytes of its length, big-endian, without a leading zero.
  The offset is \<open>0x80\<close> for a string and \<open>0xC0\<close> for a list.  These definitions follow
  the specification, not the source.
\<close>

fun be_bytes :: "nat \<Rightarrow> byte list" where
  "be_bytes n = (if n = 0 then [] else be_bytes (n div 256) @ [of_nat (n mod 256)])"

definition rlp_header :: "byte \<Rightarrow> nat \<Rightarrow> byte list" where
  "rlp_header offset n =
     (if n \<le> 55 then [offset + of_nat n]
      else [offset + 55 + of_nat (length (be_bytes n))] @ be_bytes n)"

definition rlp_encode_string :: "byte list \<Rightarrow> byte list" where
  "rlp_encode_string p =
     (if length p = 1 \<and> hd p \<le> 0x7F then p else rlp_header 0x80 (length p) @ p)"

definition rlp_list_header :: "nat \<Rightarrow> byte list" where
  "rlp_list_header n = rlp_header 0xC0 n"

text \<open>The big-endian value that \<^verbatim>\<open>ReadSize\<close> reads back from the length bytes.\<close>

abbreviation be_value :: "byte list \<Rightarrow> int" where
  "be_value bs \<equiv> foldl (\<lambda>acc x. acc * 256 + uint x) 0 bs"

declare be_bytes.simps [simp del]

subsection \<open>The sub-items of a list payload\<close>

text \<open>
  \<open>sub_items inp p items e\<close>: reading sub-items with \<^verbatim>\<open>ReadSize\<close> from position \<open>p\<close>, one
  after the other, each inside the buffer, gives the payload slices \<open>items\<close> and stops at
  position \<open>e\<close>.
\<close>

fun sub_items :: "byte list \<Rightarrow> int \<Rightarrow> byte list list \<Rightarrow> int \<Rightarrow> bool" where
  "sub_items inp p [] e \<longleftrightarrow> p = e"
| "sub_items inp p (x # xs) e \<longleftrightarrow>
     (case ReadSize inp p of
        Inl f \<Rightarrow> False
      | Inr (isString, dataStartIndex, dataSize) \<Rightarrow>
          dataStartIndex + dataSize \<le> len inp \<and>
          x = take (nat dataSize) (drop (nat dataStartIndex) inp) \<and>
          sub_items inp (dataStartIndex + dataSize) xs e)"

subsection \<open>Sub-item headers\<close>

text \<open>
  \<open>item_header h e\<close>: \<open>h\<close> is the header the standard rules put in front of a sub-item
  with payload \<open>e\<close>.
\<close>

definition item_header :: "byte list \<Rightarrow> byte list \<Rightarrow> bool" where
  "item_header h e \<longleftrightarrow>
     (h = [] \<and> length e = 1 \<and> hd e \<le> 0x7F) \<or>
     h = rlp_header 0x80 (length e) \<or> h = rlp_header 0xC0 (length e)"

subsection \<open>Length bytes of a long-form tag\<close>

text \<open>
  The number of length bytes that a long-form tag announces (\<open>f - 0xB7\<close> for a string,
  \<open>f - 0xF7\<close> for a list, as in the table of item categories), and 0 for any other tag.
\<close>

definition length_bytes :: "byte \<Rightarrow> int" where
  "length_bytes f =
     (if 0xB8 \<le> f \<and> f \<le> 0xBF then uint f - 0xB7
      else if 0xF8 \<le> f then uint f - 0xF7
      else 0)"

section \<open>The list decoder\<close>

subsection \<open>Facts about \<^verbatim>\<open>ReadSize\<close> that the list loop rests on\<close>

text \<open>
  Within the 64-bit range \<open>int64\<close> is the identity; one step above it wraps to the
  negative numbers.
\<close>

lemma int64_id: "- (2 ^ 63) \<le> x \<Longrightarrow> x < 2 ^ 63 \<Longrightarrow> int64 x = x"
  unfolding int64_def by (simp add: mod_pos_pos_trivial)

lemma int64_range: "- (2 ^ 63) \<le> int64 x \<and> int64 x < 2 ^ 63"
  unfolding int64_def
  using pos_mod_bound[of "2 ^ 64" "x + 2 ^ 63"] pos_mod_sign[of "2 ^ 64" "x + 2 ^ 63"] by simp

lemma uint64_id: "0 \<le> x \<Longrightarrow> x < 2 ^ 64 \<Longrightarrow> uint64 x = x"
  unfolding uint64_def by (simp add: mod_pos_pos_trivial)

lemma uint_byte_bounds: "0 \<le> uint (b :: byte) \<and> uint b < 256"
  using uint_bounded[of b] by simp

lemma byte_le_iff: "(a :: byte) \<le> b \<longleftrightarrow> uint a \<le> uint b"
  by (rule word_le_def)

lemma byte_le_127: "(b :: byte) \<le> 0x7F \<longleftrightarrow> uint b \<le> 127"
  by (simp add: byte_le_iff)

lemma byte_sub_uint: "(c :: byte) \<le> b \<Longrightarrow> uint (b - c) = uint b - uint c"
  by (simp add: uint_sub_lem word_le_def)

lemma byte_eq_0_iff: "(b :: byte) = 0 \<longleftrightarrow> uint b = 0"
  by (simp add: word_uint_eq_iff)

lemma int64_uint_byte: "int64 (uint (b :: byte)) = uint b"
proof (rule int64_id)
  have "- (2 ^ 63) \<le> (0 :: int)" by simp
  also have "0 \<le> uint b" by simp
  finally show "- (2 ^ 63) \<le> uint b" .
  have "uint b < 256" using uint_bounded[of b] by simp
  then show "uint b < 2 ^ 63" by simp
qed

lemma ReadSize_long_shape:
  assumes "ReadSize_long inp c n isS = Inr (b, ds, sz)"
  shows "0 \<le> c \<and> c < len inp \<and> 0 \<le> sz \<and> (ds = int64 (c + 1) \<or> ds = int64 (c + int64 n))"
proof (cases "n = 1")
  case True
  with assms show ?thesis
    by (auto simp: ReadSize_long_def index_def Let_def int64_uint_byte split: if_splits)
next
  case False
  have v: "\<And>v. 55 < v \<Longrightarrow> v \<le> 2 ^ 63 - 1 \<Longrightarrow> 0 \<le> int64 v"
    by (subst int64_id) simp_all
  from False assms show ?thesis
    by (auto simp: ReadSize_long_def index_def Let_def MaxShortLengthAllowed_def
        MaxLongLengthAllowed_def v split: if_splits sum.splits)
qed

lemma ReadSize_index:
  assumes "ReadSize inp s = Inr r"
  shows "0 \<le> s \<and> s < len inp"
  using assms by (auto simp: ReadSize_def index_def split: if_splits)

lemma ReadSize_shape:
  assumes "ReadSize inp s = Inr (b, ds, sz)"
  shows "0 \<le> sz \<and>
     (ds = int64 (int64 (s + 1) - 1) \<and> sz = 1 \<or> ds = int64 (s + 1) \<or>
      (0 \<le> int64 (s + 1) \<and> (\<exists>k. 0 \<le> k \<and> k < 256 \<and> ds = int64 (int64 (s + 1) + k))))"
proof -
  have idx: "index inp s = Inr (inp ! nat s)"
    using ReadSize_index[OF assms] by (simp add: index_def)
  have ne: "len inp \<noteq> 0" "\<not> len inp \<le> s"
    using ReadSize_index[OF assms] by auto
  let ?f = "inp ! nat s"
  show ?thesis
  proof (cases "?f \<le> ByteRangeEnd")
    case True
    then show ?thesis using assms by (simp add: ReadSize_def idx ne Let_def)
  next
    case f1: False
    show ?thesis
    proof (cases "?f \<le> ShortStringRangeEnd \<or> (?f \<ge> ShortListRangeStart \<and> ?f \<le> ShortListRangeEnd)")
      case True
      then show ?thesis using assms f1
        by (auto simp: ReadSize_def idx ne Let_def int64_uint_byte split: if_splits)
    next
      case False
      then obtain n isS where rl: "ReadSize_long inp (int64 (s + 1)) n isS = Inr (b, ds, sz)"
        and n: "n = 0 \<or> (\<exists>w :: byte. n = uint w)"
        using assms f1 by (auto simp: ReadSize_def idx ne Let_def split: if_splits)
      from ReadSize_long_shape[OF rl]
      have c: "0 \<le> int64 (s + 1)" and sz: "0 \<le> sz"
        and d: "ds = int64 (int64 (s + 1) + 1) \<or> ds = int64 (int64 (s + 1) + int64 n)"
        by auto
      from n have n64: "int64 n = n"
      proof
        assume "n = 0" then show ?thesis by (simp add: int64_def)
      next
        assume "\<exists>w :: byte. n = uint w"
        then show ?thesis by (auto simp: int64_uint_byte)
      qed
      from n have nb: "0 \<le> n \<and> n < 256"
      proof
        assume "n = 0" then show ?thesis by simp
      next
        assume "\<exists>w :: byte. n = uint w"
        then obtain w :: byte where "n = uint w" by auto
        then show ?thesis using uint_bounded[of w] by simp
      qed
      from d have "\<exists>k. 0 \<le> k \<and> k < 256 \<and> ds = int64 (int64 (s + 1) + k)"
      proof
        assume "ds = int64 (int64 (s + 1) + 1)"
        then show ?thesis by (intro exI[of _ 1]) simp
      next
        assume "ds = int64 (int64 (s + 1) + int64 n)"
        then show ?thesis using nb n64 by (intro exI[of _ n]) simp
      qed
      then show ?thesis using c sz by simp
    qed
  qed
qed

lemma int64_wrap_hi: "2 ^ 63 \<le> x \<Longrightarrow> x < 2 ^ 64 \<Longrightarrow> int64 x = x - 2 ^ 64"
proof -
  assume a: "2 ^ 63 \<le> x" "x < 2 ^ 64"
  have "(x + 2 ^ 63) mod 2 ^ 64 = (x + 2 ^ 63 - 2 ^ 64) mod 2 ^ 64"
    by (metis mod_diff_right_eq mod_self diff_zero)
  also have "\<dots> = x + 2 ^ 63 - 2 ^ 64"
    using a by (intro mod_pos_pos_trivial) simp_all
  finally show ?thesis by (simp add: int64_def)
qed

lemma int64_nonneg_small:
  assumes "0 \<le> x" "x < 2 ^ 63 + 256" "0 \<le> int64 x"
  shows "int64 x = x"
proof (cases "x < 2 ^ 63")
  case True
  then show ?thesis using assms by (intro int64_id) simp_all
next
  case False
  then have "int64 x = x - 2 ^ 64" using assms by (intro int64_wrap_hi) simp_all
  then show ?thesis using assms by simp
qed

lemma ReadSize_advance:
  assumes rs: "ReadSize inp s = Inr (b, ds, sz)"
    and ds0: "0 \<le> ds" and de: "ds \<le> int64 (ds + sz)" and s63: "s < 2 ^ 63"
  shows "s < int64 (ds + sz)"
proof -
  from ReadSize_index[OF rs] have s0: "0 \<le> s" by simp
  from ReadSize_shape[OF rs]
  have sz: "0 \<le> sz"
    and sh: "ds = int64 (int64 (s + 1) - 1) \<and> sz = 1 \<or> ds = int64 (s + 1) \<or>
      (0 \<le> int64 (s + 1) \<and> (\<exists>k. 0 \<le> k \<and> k < 256 \<and> ds = int64 (int64 (s + 1) + k)))"
    by auto
  have nxt: "0 \<le> int64 (s + 1) \<Longrightarrow> int64 (s + 1) = s + 1"
    using s0 s63 by (intro int64_nonneg_small) simp_all
  from sh consider (single) "ds = int64 (int64 (s + 1) - 1)" "sz = 1"
    | (short) "ds = int64 (s + 1)"
    | (long) k where "0 \<le> int64 (s + 1)" "0 \<le> k" "k < 256" "ds = int64 (int64 (s + 1) + k)"
    by blast
  then show ?thesis
  proof cases
    case single
    show ?thesis
    proof (cases "s + 1 < 2 ^ 63")
      case True
      then have "int64 (s + 1) = s + 1" using s0 by (intro int64_id) simp_all
      moreover have "int64 s = s" using s0 s63 by (intro int64_id) simp_all
      ultimately show ?thesis using single de by simp
    next
      case False
      then have s: "s = 2 ^ 63 - 1" using s63 by simp
      have "int64 (2 ^ 63) = - (2 ^ 63)" by (simp add: int64_def)
      moreover have "int64 (- (2 ^ 63) - 1) = 2 ^ 63 - 1" by (simp add: int64_def)
      ultimately show ?thesis using single de s by simp
    qed
  next
    case short
    then have "ds = s + 1" using nxt ds0 by simp
    then show ?thesis using de by simp
  next
    case long
    then have c: "int64 (s + 1) = s + 1" using nxt by simp
    have "int64 (s + 1 + k) = s + 1 + k"
      using long ds0 s0 s63 c by (intro int64_nonneg_small) simp_all
    then show ?thesis using long c de by simp
  qed
qed

subsection \<open>\<^verbatim>\<open>DecodeList\<close>\<close>

text \<open>
  The \<^verbatim>\<open>for bytesRead < listDataSize\<close> loop, on the loop variables
  \<open>itemStartIndex\<close>, \<open>bytesRead\<close> and \<open>retList\<close>; it returns them when the loop
  condition fails.  It terminates because a slice expression that does not panic leaves
  \<open>itemEndIndex\<close>, the next \<open>itemStartIndex\<close>, strictly further along the buffer.
\<close>

function DecodeList_loop ::
  "byte list \<Rightarrow> int \<Rightarrow> int \<Rightarrow> int \<Rightarrow> byte list list \<Rightarrow> (int \<times> int \<times> byte list list) result" where
  "DecodeList_loop inp listDataSize itemStartIndex bytesRead retList =
     (if bytesRead < listDataSize then
        (case ReadSize inp itemStartIndex of
           Inl f \<Rightarrow> Inl f
         | Inr (isString, itemDataStartIndex, itemSize) \<Rightarrow>
             let itemEndIndex = int64 (itemDataStartIndex + itemSize)
             in if itemEndIndex > len inp then Inl (Error ErrIncompleteInput)
                else
                  (case subslice inp itemDataStartIndex itemEndIndex of
                     Inl f \<Rightarrow> Inl f
                   | Inr item \<Rightarrow>
                       DecodeList_loop inp listDataSize itemEndIndex
                         (int64 (bytesRead + int64 (itemEndIndex - itemStartIndex)))
                         (retList @ [item])))
      else Inr (itemStartIndex, bytesRead, retList))"
  by pat_completeness auto
termination
proof (relation "measure (\<lambda>(inp, listDataSize, itemStartIndex, bytesRead, retList).
     if itemStartIndex < 2 ^ 63 then nat (len inp - itemStartIndex) else nat (len inp) + 1)")
  show "wf (measure (\<lambda>(inp, listDataSize, itemStartIndex, bytesRead, retList).
     if itemStartIndex < 2 ^ 63 then nat (len inp - itemStartIndex) else nat (len inp) + 1))"
    by simp
next
  fix inp :: "byte list" and listDataSize itemStartIndex bytesRead :: int
    and retList :: "byte list list" and x2 x y x2a xa ya xb
  assume rs: "ReadSize inp itemStartIndex = Inr x2" and x2: "(x, y) = x2" and y: "(xa, ya) = y"
    and e: "xb = int64 (xa + ya)" and le: "\<not> len inp < xb"
    and sl: "subslice inp xa xb = Inr x2a"
  from rs x2 y have rs': "ReadSize inp itemStartIndex = Inr (x, xa, ya)" by simp
  from sl have b: "0 \<le> xa" "xa \<le> xb" "xb \<le> len inp"
    by (auto simp: subslice_def split: if_splits)
  from ReadSize_index[OF rs'] have s: "0 \<le> itemStartIndex" "itemStartIndex < len inp" by auto
  have xb63: "xb < 2 ^ 63" using e int64_range[of "xa + ya"] by simp
  show "((inp, listDataSize, xb, int64 (bytesRead + int64 (xb - itemStartIndex)), retList @ [x2a]),
         (inp, listDataSize, itemStartIndex, bytesRead, retList))
        \<in> measure (\<lambda>(inp, listDataSize, itemStartIndex, bytesRead, retList).
     if itemStartIndex < 2 ^ 63 then nat (len inp - itemStartIndex) else nat (len inp) + 1)"
  proof (cases "itemStartIndex < 2 ^ 63")
    case True
    from ReadSize_advance[OF rs' b(1) _ True] b(2) e have "itemStartIndex < xb" by simp
    then show ?thesis using True xb63 b s by simp
  next
    case False
    then show ?thesis using xb63 b s by simp
  qed
qed

definition DecodeList :: "byte list \<Rightarrow> int \<Rightarrow> byte list list result" where
  "DecodeList inp startIndex =
     (case ReadSize inp startIndex of
        Inl f \<Rightarrow> Inl f
      | Inr (isString, dataStartIndex, listDataSize) \<Rightarrow>
          if isString then Inl (Error ErrTypeMismatch)
          else
            (case DecodeList_loop inp listDataSize dataStartIndex 0 [] of
               Inl f \<Rightarrow> Inl f
             | Inr (itemStartIndex, bytesRead, retList) \<Rightarrow>
                 if bytesRead \<noteq> listDataSize then Inl (Error ErrListSizeMismatch)
                 else if len inp > itemStartIndex then Inl (Error ErrInputContainsExtraBytes)
                 else Inr retList))"

section \<open>Properties of \<^verbatim>\<open>ReadSize\<close>\<close>

text \<open>
  What \<^verbatim>\<open>ReadSize\<close> returns, by the range of the tag byte, for a start index inside a
  buffer whose length is a Go \<^verbatim>\<open>int\<close>.
\<close>

lemma ReadSize_single:
  assumes "0 \<le> s" "s < len inp" "len inp < 2 ^ 63" "uint (inp ! nat s) \<le> 127"
  shows "ReadSize inp s = Inr (True, s, 1)"
  using assms
  by (simp add: ReadSize_def index_def ByteRangeEnd_def byte_le_iff int64_id)

lemma ReadSize_short_string:
  assumes "0 \<le> s" "s < len inp" "len inp < 2 ^ 63" "128 \<le> uint (inp ! nat s)" "uint (inp ! nat s) \<le> 183"
  shows "ReadSize inp s = Inr (True, s + 1, uint (inp ! nat s) - 128)"
proof -
  have "uint (inp ! nat s - 0x80) = uint (inp ! nat s) - 128"
    using assms by (simp add: byte_sub_uint byte_le_iff)
  then show ?thesis using assms uint_byte_bounds[of "inp ! nat s"]
    by (simp add: ReadSize_def index_def ByteRangeEnd_def ShortStringRangeEnd_def
        ShortStringRangeStart_def byte_le_iff int64_id Let_def)
qed

lemma ReadSize_short_list:
  assumes "0 \<le> s" "s < len inp" "len inp < 2 ^ 63" "192 \<le> uint (inp ! nat s)" "uint (inp ! nat s) \<le> 247"
  shows "ReadSize inp s = Inr (False, s + 1, uint (inp ! nat s) - 192)"
proof -
  have "uint (inp ! nat s - 0xc0) = uint (inp ! nat s) - 192"
    using assms by (simp add: byte_sub_uint byte_le_iff)
  then show ?thesis using assms uint_byte_bounds[of "inp ! nat s"]
    by (simp add: ReadSize_def index_def ByteRangeEnd_def ShortStringRangeEnd_def
        ShortListRangeStart_def ShortListRangeEnd_def byte_le_iff int64_id Let_def)
qed

lemma ReadSize_long_string:
  assumes "0 \<le> s" "s < len inp" "len inp < 2 ^ 63" "184 \<le> uint (inp ! nat s)" "uint (inp ! nat s) \<le> 191"
  shows "ReadSize inp s = ReadSize_long inp (s + 1) (uint (inp ! nat s) - 183) True"
proof -
  have "uint (inp ! nat s - 0xb7) = uint (inp ! nat s) - 183"
    using assms by (simp add: byte_sub_uint byte_le_iff)
  then show ?thesis using assms uint_byte_bounds[of "inp ! nat s"]
    by (simp add: ReadSize_def index_def ByteRangeEnd_def ShortStringRangeEnd_def
        ShortListRangeStart_def ShortListRangeEnd_def LongStringRangeStart_def
        LongStringRangeEnd_def LongListRangeStart_def byte_le_iff int64_id Let_def)
qed

lemma ReadSize_long_list:
  assumes "0 \<le> s" "s < len inp" "len inp < 2 ^ 63" "248 \<le> uint (inp ! nat s)"
  shows "ReadSize inp s = ReadSize_long inp (s + 1) (uint (inp ! nat s) - 247) False"
proof -
  have "uint (inp ! nat s - 0xf7) = uint (inp ! nat s) - 247"
    using assms by (simp add: byte_sub_uint byte_le_iff)
  then show ?thesis using assms uint_byte_bounds[of "inp ! nat s"]
    by (simp add: ReadSize_def index_def ByteRangeEnd_def ShortStringRangeEnd_def
        ShortListRangeStart_def ShortListRangeEnd_def LongStringRangeStart_def
        LongStringRangeEnd_def LongListRangeStart_def byte_le_iff int64_id Let_def)
qed

lemma foldl_be_zeros:
  "foldl (\<lambda>acc x. acc * 256 + uint x) 0 (replicate k (0 :: byte) @ bs) =
   foldl (\<lambda>acc x. acc * 256 + uint x) 0 bs"
  by (induction k) simp_all

lemma ReadSize_long_end:
  "c \<ge> len inp \<Longrightarrow> ReadSize_long inp c n isS = Inl (Error ErrIncompleteInput)"
  by (simp add: ReadSize_long_def)

lemma ReadSize_long_one:
  assumes "0 \<le> c" "c < len inp" "len inp < 2 ^ 63"
  shows "ReadSize_long inp c 1 isS =
     (if uint (inp ! nat c) \<le> 55 then Inl (Error ErrNonCanonicalInput)
      else Inr (isS, c + 1, uint (inp ! nat c)))"
  using assms uint_byte_bounds[of "inp ! nat c"]
  by (simp add: ReadSize_long_def index_def MaxShortLengthAllowed_def int64_id Let_def)

lemma ReadSize_long_many:
  assumes "0 \<le> c" "c < len inp" "c + n < 2 ^ 63" "2 \<le> n" "n \<le> 8"
  shows "ReadSize_long inp c n isS =
     (if inp ! nat c = 0 then Inl (Error ErrNonCanonicalInput)
      else if c + n > len inp then Inl (Error ErrIncompleteInput)
      else if foldl (\<lambda>acc x. acc * 256 + uint x) 0 (take (nat n) (drop (nat c) inp)) \<le> 55
        then Inl (Error ErrNonCanonicalInput)
      else if foldl (\<lambda>acc x. acc * 256 + uint x) 0 (take (nat n) (drop (nat c) inp)) > 2 ^ 63 - 1
        then Inl (Error ErrDataSizeTooLarge)
      else Inr (isS, c + n, foldl (\<lambda>acc x. acc * 256 + uint x) 0 (take (nat n) (drop (nat c) inp))))"
proof -
  let ?src = "take (nat n) (drop (nat c) inp)"
  let ?v = "foldl (\<lambda>acc x. acc * 256 + uint x) 0 ?src"
  have st: "int64 (uint64 (8 - n)) = 8 - n"
    using assms by (simp add: uint64_id int64_id)
  have n64: "int64 n = n" using assms by (simp add: int64_id)
  have e64: "int64 (c + n) = c + n" using assms by (simp add: int64_id)
  have dst: "subslice (replicate 8 (0::byte)) (8 - n) (len (replicate 8 (0::byte))) = Inr (replicate (nat n) 0)"
    using assms by (simp add: subslice_def len_def)
  show ?thesis
  proof (cases "inp ! nat c = 0 \<or> c + n > len inp")
    case True
    then show ?thesis using assms
      by (auto simp: ReadSize_long_def index_def Let_def st n64 e64)
  next
    case False
    then have le: "c + n \<le> len inp" and nz: "inp ! nat c \<noteq> 0" by auto
    have src: "subslice inp c (c + n) = Inr ?src"
      using assms le by (simp add: subslice_def)
    have lsrc: "length ?src = nat n"
      using assms le by (simp add: len_def)
    have cp: "copy (replicate (nat n) 0) ?src = ?src"
      using lsrc by (simp add: copy_def)
    have tk: "take (nat (8 - n)) (replicate 8 (0::byte)) = replicate (nat (8 - n)) 0"
      using assms by simp
    have l8: "length (replicate (nat (8 - n)) (0::byte) @ ?src) = 8"
      using lsrc assms by simp
    have "take 8 (replicate (nat (8 - n)) (0::byte) @ ?src) = replicate (nat (8 - n)) 0 @ ?src"
      by (rule take_all) (simp only: l8 order_refl)
    then have be: "BigEndian_Uint64 (replicate (nat (8 - n)) 0 @ ?src) = ?v"
      unfolding BigEndian_Uint64_def by (simp only: foldl_be_zeros)
    have v0: "0 \<le> ?v \<Longrightarrow> ?v \<le> 2 ^ 63 - 1 \<Longrightarrow> int64 ?v = ?v"
      by (rule int64_id) simp_all
    have vnn: "55 < ?v \<Longrightarrow> 0 \<le> ?v" by simp
    show ?thesis
      using assms nz le v0 vnn
      by (simp add: ReadSize_long_def index_def Let_def st n64 e64 dst src cp tk be
          MaxShortLengthAllowed_def MaxLongLengthAllowed_def)
  qed
qed

lemma ReadSize_long_wrap:
  assumes "0 \<le> c" "c < len inp" "len inp < 2 ^ 63" "2 \<le> n" "n \<le> 8"
    "inp ! nat c \<noteq> 0" "2 ^ 63 \<le> c + n"
  shows "ReadSize_long inp c n isS = Inl Panic"
proof -
  define e where "e = c + n - 2 ^ 64"
  have st: "int64 (uint64 (8 - n)) = 8 - n"
    using assms by (simp add: uint64_id int64_id)
  have n64: "int64 n = n" using assms by (simp add: int64_id)
  have "int64 (c + n) = c + n - 2 ^ 64" using assms by (intro int64_wrap_hi) simp_all
  then have e64: "int64 (c + n) = e" by (simp add: e_def)
  have elt: "e < c" using assms by (simp add: e_def)
  have dst: "subslice (replicate 8 (0::byte)) (8 - n) (len (replicate 8 (0::byte))) = Inr (replicate (nat n) 0)"
    using assms by (simp add: subslice_def len_def)
  have src: "subslice inp c e = Inl Panic"
    using elt by (simp add: subslice_def)
  have le: "\<not> len inp < e" using assms elt by simp
  show ?thesis
    using assms(1-6) le
    by (simp add: ReadSize_long_def index_def Let_def st n64 e64 dst src)
qed

lemma ReadSize_long_InrE:
  assumes rl: "ReadSize_long inp c n isS = Inr (b, ds, sz)" and l63: "len inp < 2 ^ 63"
    and n: "1 \<le> n" "n \<le> 8"
  obtains
    (long_one) "n = 1" "b = isS" "c < len inp" "ds = c + 1" "sz = uint (inp ! nat c)" "55 < sz"
  | (long_many) "2 \<le> n" "b = isS" "c + n \<le> len inp" "inp ! nat c \<noteq> 0" "ds = c + n"
      "sz = foldl (\<lambda>acc x. acc * 256 + uint x) 0 (take (nat n) (drop (nat c) inp))"
      "55 < sz" "sz \<le> 2 ^ 63 - 1"
proof -
  from ReadSize_long_shape[OF rl] have c: "0 \<le> c" "c < len inp" by auto
  show ?thesis
  proof (cases "n = 1")
    case True
    then show ?thesis
      using rl ReadSize_long_one[OF c l63, of isS] long_one c
      by (simp split: if_splits)
  next
    case False
    then have n2: "2 \<le> n" using n by simp
    have nz: "inp ! nat c \<noteq> 0"
      using rl False c by (auto simp: ReadSize_long_def index_def Let_def split: if_splits)
    have lt: "c + n < 2 ^ 63"
      using ReadSize_long_wrap[OF c l63 n2 n(2) nz, of isS] rl by fastforce
    have e64: "int64 (c + int64 n) = c + n"
      using n c lt by (simp add: int64_id)
    have le: "c + n \<le> len inp"
      using rl False c nz e64
      by (auto simp: ReadSize_long_def index_def Let_def split: if_splits)
    show ?thesis
      using rl ReadSize_long_many[OF c lt n2 n(2), of isS] long_many n2 nz le
      by (simp split: if_splits)
  qed
qed

text \<open>
  Every successful return of \<^verbatim>\<open>ReadSize\<close> is one of the five forms of an item header.
\<close>

lemma ReadSize_InrE:
  assumes rs: "ReadSize inp s = Inr (isS, ds, sz)" and l63: "len inp < 2 ^ 63"
  obtains
    (single) "uint (inp ! nat s) \<le> 127" "isS" "ds = s" "sz = 1"
  | (short_string) "128 \<le> uint (inp ! nat s)" "uint (inp ! nat s) \<le> 183"
      "isS" "ds = s + 1" "sz = uint (inp ! nat s) - 128"
  | (short_list) "192 \<le> uint (inp ! nat s)" "uint (inp ! nat s) \<le> 247"
      "\<not> isS" "ds = s + 1" "sz = uint (inp ! nat s) - 192"
  | (long_one) "uint (inp ! nat s) = (if isS then 184 else 248)" "s + 1 < len inp"
      "ds = s + 2" "sz = uint (inp ! nat (s + 1))" "55 < sz"
  | (long_many) n where "2 \<le> n" "n \<le> 8" "uint (inp ! nat s) = (if isS then 183 else 247) + n"
      "s + 1 + n \<le> len inp" "inp ! nat (s + 1) \<noteq> 0" "ds = s + 1 + n"
      "sz = foldl (\<lambda>acc x. acc * 256 + uint x) 0 (take (nat n) (drop (nat (s + 1)) inp))"
      "55 < sz" "sz \<le> 2 ^ 63 - 1"
proof -
  note one = long_one and many = long_many
  from ReadSize_index[OF rs] have s: "0 \<le> s" "s < len inp" by auto
  let ?f = "uint (inp ! nat s)"
  have fb: "?f < 256" using uint_bounded[of "inp ! nat s"] by simp
  show ?thesis
  proof (cases "?f \<le> 127")
    case True
    from ReadSize_single[OF s l63 True] rs have "isS" "ds = s" "sz = 1" by simp_all
    with True show ?thesis by (rule single)
  next
    case f1: False
    show ?thesis
    proof (cases "?f \<le> 183")
      case True
      from f1 have lo: "128 \<le> ?f" by simp
      from ReadSize_short_string[OF s l63 lo True] rs
      have "isS" "ds = s + 1" "sz = ?f - 128" by simp_all
      with lo True show ?thesis by (rule short_string)
    next
      case f2: False
      show ?thesis
      proof (cases "?f \<le> 191")
        case True
        let ?n = "?f - 183"
        from f2 have lo: "184 \<le> ?f" by simp
        from ReadSize_long_string[OF s l63 lo True] rs
        have rl: "ReadSize_long inp (s + 1) ?n True = Inr (isS, ds, sz)" by simp
        from True f2 have n: "1 \<le> ?n" "?n \<le> 8" by auto
        from rl l63 n show ?thesis
        proof (cases rule: ReadSize_long_InrE)
          case long_one
          have a: "?f = (if isS then 184 else 248)" using long_one(1,2) by simp
          have d: "ds = s + 2" using long_one(4) by simp
          from a long_one(3) d long_one(5,6) show ?thesis by (rule one)
        next
          case long_many
          have a: "?f = (if isS then 183 else 247) + ?n" using long_many(2) by simp
          from long_many(1) n(2) a long_many(3,4,5,6,7,8) show ?thesis by (rule many)
        qed
      next
        case f3: False
        show ?thesis
        proof (cases "?f \<le> 247")
          case True
          from f3 have lo: "192 \<le> ?f" by simp
          from ReadSize_short_list[OF s l63 lo True] rs
          have "\<not> isS" "ds = s + 1" "sz = ?f - 192" by simp_all
          with lo True show ?thesis by (rule short_list)
        next
          case f4: False
          let ?n = "?f - 247"
          from f4 have lo: "248 \<le> ?f" by simp
          from ReadSize_long_list[OF s l63 lo] rs
          have rl: "ReadSize_long inp (s + 1) ?n False = Inr (isS, ds, sz)" by simp
          from f4 fb have n: "1 \<le> ?n" "?n \<le> 8" by auto
          from rl l63 n show ?thesis
          proof (cases rule: ReadSize_long_InrE)
            case long_one
            have a: "?f = (if isS then 184 else 248)" using long_one(1,2) by simp
            have d: "ds = s + 2" using long_one(4) by simp
            from a long_one(3) d long_one(5,6) show ?thesis by (rule one)
          next
            case long_many
            have a: "?f = (if isS then 183 else 247) + ?n" using long_many(2) by simp
            from long_many(1) n(2) a long_many(3,4,5,6,7,8) show ?thesis by (rule many)
          qed
        qed
      qed
    qed
  qed
qed

text \<open>Where \<^verbatim>\<open>ReadSize\<close> can panic and where it cannot.\<close>

lemma ReadSize_long_no_panic:
  assumes "0 \<le> c" "len inp + 8 < 2 ^ 63" "1 \<le> n" "n \<le> 8"
  shows "ReadSize_long inp c n isS \<noteq> Inl Panic"
proof (cases "c < len inp")
  case False
  then show ?thesis by (simp add: ReadSize_long_end)
next
  case True
  have l63: "len inp < 2 ^ 63" using assms by simp
  show ?thesis
  proof (cases "n = 1")
    case True
    then show ?thesis using ReadSize_long_one[OF assms(1) \<open>c < len inp\<close> l63, of isS] by simp
  next
    case False
    then have n2: "2 \<le> n" using assms by simp
    have lt: "c + n < 2 ^ 63" using True assms by simp
    show ?thesis
      using ReadSize_long_many[OF assms(1) True lt n2 assms(4), of isS] by simp
  qed
qed

lemma ReadSize_no_panic:
  assumes s0: "0 \<le> s" and l: "len inp + 8 < 2 ^ 63"
  shows "ReadSize inp s \<noteq> Inl Panic"
proof (cases "len inp = 0 \<or> len inp \<le> s")
  case True
  then show ?thesis by (auto simp: ReadSize_def)
next
  case False
  then have s: "0 \<le> s" "s < len inp" using s0 by auto
  have l63: "len inp < 2 ^ 63" using l by simp
  let ?f = "uint (inp ! nat s)"
  have fb: "?f < 256" using uint_bounded[of "inp ! nat s"] by simp
  show ?thesis
  proof (cases "?f \<le> 127")
    case True
    then show ?thesis using ReadSize_single[OF s l63] by simp
  next
    case f1: False
    show ?thesis
    proof (cases "?f \<le> 183")
      case True
      then show ?thesis using f1 ReadSize_short_string[OF s l63] by simp
    next
      case f2: False
      show ?thesis
      proof (cases "?f \<le> 191")
        case True
        then show ?thesis
          using f2 ReadSize_long_string[OF s l63]
            ReadSize_long_no_panic[OF _ l, of "s + 1" "?f - 183" True] s by simp
      next
        case f3: False
        show ?thesis
        proof (cases "?f \<le> 247")
          case True
          then show ?thesis using f3 ReadSize_short_list[OF s l63] by simp
        next
          case False
          then show ?thesis
            using fb ReadSize_long_list[OF s l63]
              ReadSize_long_no_panic[OF _ l, of "s + 1" "?f - 247" False] s by simp
        qed
      qed
    qed
  qed
qed

lemma ReadSize_negative:
  assumes "s < 0" "inp \<noteq> []"
  shows "ReadSize inp s = Inl Panic"
  using assms by (simp add: ReadSize_def index_def len_def)

section \<open>The standard header, read back\<close>

lemma be_value_nonneg: "0 \<le> be_value bs"
  by (induction bs rule: rev_induct) simp_all

lemma be_value_pos: "bs \<noteq> [] \<Longrightarrow> hd bs \<noteq> 0 \<Longrightarrow> 0 < be_value bs"
proof (induction bs rule: rev_induct)
  case Nil
  then show ?case by simp
next
  case (snoc x xs)
  show ?case
  proof (cases "xs = []")
    case True
    with snoc.prems have "uint x \<noteq> 0" by (simp add: byte_eq_0_iff)
    moreover have "0 \<le> uint x" by simp
    ultimately have "0 < uint x" by linarith
    with True show ?thesis by simp
  next
    case False
    with snoc have "0 < be_value xs" by simp
    then have "0 < be_value xs * 256" by simp
    moreover have "0 \<le> uint x" by simp
    ultimately have "0 < be_value xs * 256 + uint x" by (rule add_pos_nonneg)
    then show ?thesis by simp
  qed
qed

lemma be_bytes_step:
  assumes "0 \<le> v" "0 < v * 256 + uint (x :: byte)"
  shows "be_bytes (nat (v * 256 + uint x)) = be_bytes (nat v) @ [x]"
proof -
  have ub: "unat x < 256" using unsigned_less[of x, where ?'a = nat] by simp
  let ?m = "nat (v * 256 + uint x)"
  have m: "?m = nat v * 256 + unat x"
    using assms by (simp add: nat_add_distrib nat_mult_distrib)
  have d: "?m div 256 = nat v" using ub unfolding m by simp
  have r: "?m mod 256 = unat x" using ub unfolding m by simp
  have "?m \<noteq> 0" using assms by simp
  then have "be_bytes ?m = be_bytes (?m div 256) @ [of_nat (?m mod 256)]"
    by (subst be_bytes.simps) simp
  then show ?thesis by (simp add: d r)
qed

lemma be_bytes_be_value: "bs \<noteq> [] \<Longrightarrow> hd bs \<noteq> 0 \<Longrightarrow> be_bytes (nat (be_value bs)) = bs"
proof (induction bs rule: rev_induct)
  case Nil
  then show ?case by simp
next
  case (snoc x xs)
  have pos: "0 < be_value (xs @ [x])" using snoc.prems by (rule be_value_pos)
  then have st: "be_bytes (nat (be_value (xs @ [x]))) = be_bytes (nat (be_value xs)) @ [x]"
    using be_bytes_step[OF be_value_nonneg, of xs x] by simp
  show ?case
  proof (cases "xs = []")
    case True
    then show ?thesis using st by (simp add: be_bytes.simps)
  next
    case False
    with snoc have "be_bytes (nat (be_value xs)) = xs" by simp
    then show ?thesis using st by simp
  qed
qed

lemma be_1: "be_bytes 1 = [1]" by (simp add: be_bytes.simps)

subsection \<open>The header that \<^verbatim>\<open>ReadSize\<close> has read is the standard one\<close>

lemma byte_of_offset:
  fixes b :: byte
  assumes "uint b = off + k" "0 \<le> k"
  shows "word_of_int off + of_nat (nat k) = b"
proof -
  have "(word_of_int k :: byte) = of_nat (nat k)"
    using assms(2) by (rule word_of_int_nat)
  then have "word_of_int off + of_nat (nat k) = (word_of_int off + word_of_int k :: byte)"
    by (simp only:)
  also have "\<dots> = word_of_int (off + k)" by (rule wi_hom_add)
  also have "\<dots> = word_of_int (uint b)" by (simp only: assms(1))
  also have "\<dots> = b" by (rule word_of_int_uint)
  finally show ?thesis .
qed

lemma take_drop_head:
  assumes "0 \<le> s" "s < len inp" "0 \<le> k"
  shows "take (nat (1 + k)) (drop (nat s) inp) = inp ! nat s # take (nat k) (drop (nat (s + 1)) inp)"
proof -
  have "nat s < length inp" using assms by (simp add: len_def)
  then have "drop (nat s) inp = inp ! nat s # drop (Suc (nat s)) inp"
    by (simp add: Cons_nth_drop_Suc)
  moreover have "nat (1 + k) = Suc (nat k)" using assms by simp
  moreover have "nat (s + 1) = Suc (nat s)" using assms by simp
  ultimately show ?thesis by simp
qed

lemma rlp_header_short:
  fixes b :: byte
  assumes "uint b = off + k" "0 \<le> k" "k \<le> 55"
  shows "rlp_header (word_of_int off) (nat k) = [b]"
proof -
  have "nat k \<le> 55" using assms by linarith
  then show ?thesis using byte_of_offset[OF assms(1,2)] by (simp add: rlp_header_def)
qed

lemma rlp_header_long:
  fixes b :: byte
  assumes "uint b = off + 55 + n" "bs \<noteq> []" "hd bs \<noteq> 0" "int (length bs) = n" "55 < be_value bs"
  shows "rlp_header (word_of_int off) (nat (be_value bs)) = b # bs"
proof -
  have bb: "be_bytes (nat (be_value bs)) = bs" using assms(2,3) by (rule be_bytes_be_value)
  have "uint b = (off + 55) + n" "0 \<le> n" using assms by auto
  then have "word_of_int (off + 55) + of_nat (nat n) = b" by (rule byte_of_offset)
  moreover have "nat n = length bs" using assms(4) by auto
  moreover have "(word_of_int (off + 55) :: byte) = word_of_int off + 55"
    by (simp add: wi_hom_add[symmetric])
  ultimately have "word_of_int off + 55 + of_nat (length bs) = b" by simp
  moreover have "\<not> nat (be_value bs) \<le> 55" using assms(5) by simp
  ultimately show ?thesis by (simp add: rlp_header_def bb)
qed

lemma ReadSize_header_bytes:
  assumes rs: "ReadSize inp s = Inr (isS, ds, sz)" and l63: "len inp < 2 ^ 63" and sd: "s \<noteq> ds"
  shows "take (nat (ds - s)) (drop (nat s) inp) = rlp_header (if isS then 0x80 else 0xC0) (nat sz)"
proof -
  from ReadSize_index[OF rs] have s: "0 \<le> s" "s < len inp" by auto
  let ?f = "inp ! nat s"
  have hd1: "take (nat 1) (drop (nat s) inp) = [?f]"
    using take_drop_head[OF s, of 0] by simp
  from rs l63 show ?thesis
  proof (cases rule: ReadSize_InrE)
    case single
    then show ?thesis using sd by simp
  next
    case short_string
    have "rlp_header (word_of_int 128) (nat (uint ?f - 128)) = [?f]"
      using short_string by (intro rlp_header_short) simp_all
    then show ?thesis using short_string hd1 by simp
  next
    case short_list
    have "rlp_header (word_of_int 192) (nat (uint ?f - 192)) = [?f]"
      using short_list by (intro rlp_header_short) simp_all
    then show ?thesis using short_list hd1 by simp
  next
    case long_one
    let ?x = "inp ! nat (s + 1)"
    have s1: "0 \<le> s + 1" "s + 1 < len inp" using s long_one by auto
    have tk1: "take (nat 1) (drop (nat (s + 1)) inp) = [?x]"
      using take_drop_head[OF s1, of 0] by simp
    have tk: "take (nat (ds - s)) (drop (nat s) inp) = [?f, ?x]"
      using take_drop_head[OF s, of 1] tk1 long_one by simp
    have bv: "be_value [?x] = sz" using long_one by simp
    have xnz: "?x \<noteq> 0" using long_one by (auto simp: byte_eq_0_iff)
    have h: "rlp_header (word_of_int (if isS then 128 else 192)) (nat (be_value [?x])) = ?f # [?x]"
      using long_one xnz by (intro rlp_header_long) (simp_all split: if_splits)
    from h[unfolded bv] tk show ?thesis by (simp split: if_splits)
  next
    case (long_many n)
    let ?bs = "take (nat n) (drop (nat (s + 1)) inp)"
    have tk: "take (nat (ds - s)) (drop (nat s) inp) = ?f # ?bs"
      using take_drop_head[OF s, of n] long_many by (simp add: add.commute)
    have "nat n \<le> length inp - nat (s + 1)"
      using long_many(1,4) s unfolding len_def by linarith
    then have "length ?bs = nat n" by simp
    then have ln: "int (length ?bs) = n" using long_many(1) by simp
    have ne: "?bs \<noteq> []" using ln long_many by auto
    have "nat (s + 1) < length inp" using long_many s by (simp add: len_def)
    then have "hd ?bs = inp ! nat (s + 1)"
      using long_many by (simp add: hd_drop_conv_nth)
    then have hnz: "hd ?bs \<noteq> 0" using long_many by simp
    have "rlp_header (word_of_int (if isS then 128 else 192)) (nat (be_value ?bs)) = ?f # ?bs"
      using long_many ne hnz ln by (intro rlp_header_long) (simp_all split: if_splits)
    then show ?thesis using tk long_many by (simp split: if_splits)
  qed
qed

section \<open>One iteration of the list loop\<close>

lemma ReadSize_Inr_bounds:
  assumes rs: "ReadSize inp s = Inr (isS, ds, sz)" and l63: "len inp < 2 ^ 63"
  shows "0 \<le> s" "s < len inp" "s \<le> ds" "ds \<le> len inp" "0 \<le> sz" "sz < 2 ^ 63"
    "ds = s \<Longrightarrow> isS \<and> sz = 1 \<and> uint (inp ! nat s) \<le> 127"
proof -
  from ReadSize_index[OF rs] show s: "0 \<le> s" "s < len inp" by auto
  from rs l63 show "s \<le> ds" by (cases rule: ReadSize_InrE) simp_all
  from rs l63 show "ds \<le> len inp" using s by (cases rule: ReadSize_InrE) simp_all
  have fb: "uint (inp ! nat s) < 256" using uint_bounded[of "inp ! nat s"] by simp
  have xb: "uint (inp ! nat (s + 1)) < 256" using uint_bounded[of "inp ! nat (s + 1)"] by simp
  from rs l63 show "0 \<le> sz" by (cases rule: ReadSize_InrE) simp_all
  from rs l63 show "sz < 2 ^ 63" using fb xb by (cases rule: ReadSize_InrE) simp_all
  assume "ds = s"
  with rs l63 show "isS \<and> sz = 1 \<and> uint (inp ! nat s) \<le> 127"
    by (cases rule: ReadSize_InrE) simp_all
qed

lemma int64_end:
  assumes "0 \<le> ds" "ds < 2 ^ 63" "0 \<le> sz" "sz < 2 ^ 63"
  shows "ds + sz < 2 ^ 63 \<Longrightarrow> int64 (ds + sz) = ds + sz"
    and "2 ^ 63 \<le> ds + sz \<Longrightarrow> int64 (ds + sz) = ds + sz - 2 ^ 64"
proof -
  show "ds + sz < 2 ^ 63 \<Longrightarrow> int64 (ds + sz) = ds + sz"
    using assms by (intro int64_id) simp_all
  show "2 ^ 63 \<le> ds + sz \<Longrightarrow> int64 (ds + sz) = ds + sz - 2 ^ 64"
    using assms by (intro int64_wrap_hi) simp_all
qed

lemma DecodeList_loop_done:
  "\<not> br < L \<Longrightarrow> DecodeList_loop inp L p br acc = Inr (p, br, acc)"
  by (subst DecodeList_loop.simps) simp

lemma DecodeList_loop_error:
  "br < L \<Longrightarrow> ReadSize inp p = Inl f \<Longrightarrow> DecodeList_loop inp L p br acc = Inl f"
  by (subst DecodeList_loop.simps) simp

lemma DecodeList_loop_past_end:
  assumes "br < L" "ReadSize inp p = Inr (isS, ds, sz)" "len inp < 2 ^ 63"
    "len inp < ds + sz" "ds + sz < 2 ^ 63"
  shows "DecodeList_loop inp L p br acc = Inl (Error ErrIncompleteInput)"
proof -
  note b = ReadSize_Inr_bounds[OF assms(2,3)]
  have "int64 (ds + sz) = ds + sz" using b assms by (intro int64_end(1)) simp_all
  then show ?thesis using assms by (subst DecodeList_loop.simps) (simp add: Let_def)
qed

lemma DecodeList_loop_overflow:
  assumes "br < L" "ReadSize inp p = Inr (isS, ds, sz)" "len inp < 2 ^ 63" "2 ^ 63 \<le> ds + sz"
  shows "DecodeList_loop inp L p br acc = Inl Panic"
proof -
  note b = ReadSize_Inr_bounds[OF assms(2,3)]
  define e where "e = ds + sz - 2 ^ 64"
  have "int64 (ds + sz) = ds + sz - 2 ^ 64" using b assms by (intro int64_end(2)) simp_all
  then have e: "int64 (ds + sz) = e" by (simp add: e_def)
  have "e < 0" using b assms by (simp add: e_def)
  then have "\<not> len inp < e" "subslice inp ds e = Inl Panic"
    using b by (simp_all add: subslice_def len_def)
  then show ?thesis using assms(1,2) e by (subst DecodeList_loop.simps) (simp add: Let_def)
qed

lemma DecodeList_loop_step:
  assumes "br < L" "ReadSize inp p = Inr (isS, ds, sz)" "len inp < 2 ^ 63"
    "ds + sz \<le> len inp" "0 \<le> br" "br \<le> p"
  shows "DecodeList_loop inp L p br acc =
     DecodeList_loop inp L (ds + sz) (br + (ds + sz - p)) (acc @ [take (nat sz) (drop (nat ds) inp)])"
proof -
  note b = ReadSize_Inr_bounds[OF assms(2,3)]
  have e: "int64 (ds + sz) = ds + sz" using b assms by (intro int64_end(1)) simp_all
  have sl: "subslice inp ds (ds + sz) = Inr (take (nat sz) (drop (nat ds) inp))"
    using b assms by (simp add: subslice_def)
  have d: "int64 (ds + sz - p) = ds + sz - p" using b assms by (intro int64_id) simp_all
  have r: "int64 (br + (ds + sz - p)) = br + (ds + sz - p)"
    using b assms by (intro int64_id) simp_all
  show ?thesis
    using assms(1,2,4)
    by (subst DecodeList_loop.simps) (simp add: Let_def e sl d r)
qed

lemma ReadSize_item_end:
  assumes "ReadSize inp p = Inr (isS, ds, sz)" "len inp < 2 ^ 63"
  shows "p < ds + sz"
proof (cases "ds = p")
  case True
  then show ?thesis using ReadSize_Inr_bounds(7)[OF assms] by simp
next
  case False
  then show ?thesis using ReadSize_Inr_bounds(3,5)[OF assms] by simp
qed

section \<open>What an accepted buffer looks like\<close>

lemma sub_items_bounds:
  assumes "sub_items inp p items e" "len inp < 2 ^ 63" "p \<le> len inp"
  shows "p \<le> e \<and> e \<le> len inp"
  using assms
proof (induction items arbitrary: p)
  case Nil
  then show ?case by simp
next
  case (Cons x xs)
  then obtain isS ds sz where rs: "ReadSize inp p = Inr (isS, ds, sz)"
    and le: "ds + sz \<le> len inp" and rest: "sub_items inp (ds + sz) xs e"
    by (auto split: sum.splits)
  from Cons.IH[OF rest Cons.prems(2) le] ReadSize_item_end[OF rs Cons.prems(2)]
  show ?case by simp
qed

lemma DecodeList_loop_Inr:
  assumes "DecodeList_loop inp L p br acc = Inr (p', br', acc')"
    and "len inp < 2 ^ 63" "0 \<le> br" "br \<le> p" "p \<le> len inp"
  shows "\<exists>items. acc' = acc @ items \<and> sub_items inp p items p' \<and>
           br' = br + (p' - p) \<and> \<not> br' < L"
  using assms
proof (induction "nat (len inp - p)" arbitrary: p br acc rule: less_induct)
  case less
  note l63 = \<open>len inp < 2 ^ 63\<close>
  show ?case
  proof (cases "br < L")
    case False
    with less.prems(1) have "p' = p" "br' = br" "acc' = acc"
      by (simp_all add: DecodeList_loop_done)
    with False show ?thesis by (intro exI[of _ "[]"]) simp
  next
    case True
    show ?thesis
    proof (cases "ReadSize inp p")
      case (Inl f)
      with True less.prems(1) show ?thesis by (simp add: DecodeList_loop_error)
    next
      case (Inr r)
      then obtain isS ds sz where rs: "ReadSize inp p = Inr (isS, ds, sz)"
        by (cases r) auto
      note b = ReadSize_Inr_bounds[OF rs l63]
      have le: "ds + sz \<le> len inp"
      proof (rule ccontr)
        assume n: "\<not> ds + sz \<le> len inp"
        show False
        proof (cases "ds + sz < 2 ^ 63")
          case True
          with n DecodeList_loop_past_end[OF \<open>br < L\<close> rs l63, of acc] less.prems(1)
          show False by simp
        next
          case False
          with DecodeList_loop_overflow[OF \<open>br < L\<close> rs l63, of acc] less.prems(1)
          show False by simp
        qed
      qed
      let ?item = "take (nat sz) (drop (nat ds) inp)"
      have adv: "p < ds + sz" using rs l63 by (rule ReadSize_item_end)
      have rec: "DecodeList_loop inp L (ds + sz) (br + (ds + sz - p)) (acc @ [?item]) = Inr (p', br', acc')"
        using DecodeList_loop_step[OF True rs l63 le less.prems(3,4), of acc] less.prems(1) by simp
      have "\<exists>items. acc' = (acc @ [?item]) @ items \<and> sub_items inp (ds + sz) items p' \<and>
           br' = br + (ds + sz - p) + (p' - (ds + sz)) \<and> \<not> br' < L"
        using adv le less.prems(3,4)
        by (intro less.hyps[OF _ rec l63]) simp_all
      then obtain items where it: "acc' = (acc @ [?item]) @ items" "sub_items inp (ds + sz) items p'"
        "br' = br + (ds + sz - p) + (p' - (ds + sz))" "\<not> br' < L" by blast
      show ?thesis
        using it rs le by (intro exI[of _ "?item # items"]) simp
    qed
  qed
qed

lemma DecodeList_Inr:
  assumes "DecodeList inp s = Inr items" "len inp < 2 ^ 63"
  shows "\<exists>ds L. ReadSize inp s = Inr (False, ds, L) \<and> s < ds \<and> ds + L = len inp \<and>
           sub_items inp ds items (len inp)"
proof -
  from assms(1) obtain isS ds L where rs: "ReadSize inp s = Inr (isS, ds, L)"
    by (auto simp: DecodeList_def split: sum.splits)
  with assms(1) have ns: "\<not> isS" by (auto simp: DecodeList_def split: if_splits)
  note b = ReadSize_Inr_bounds[OF rs assms(2)]
  from assms(1) rs ns obtain p' br' where
    lp: "DecodeList_loop inp L ds 0 [] = Inr (p', br', items)" and br: "br' = L" and p': "\<not> len inp > p'"
    by (auto simp: DecodeList_def split: sum.splits if_splits)
  from DecodeList_loop_Inr[OF lp assms(2) _ _ b(4)] b
  have si: "sub_items inp ds items p'" and brp: "br' = p' - ds" by auto
  from sub_items_bounds[OF si assms(2) b(4)] p' have pe: "p' = len inp" by simp
  have "s < ds" using b(3,7) ns by (cases "ds = s") auto
  then show ?thesis using rs ns si brp br pe by auto
qed

lemma DecodeString_Inr:
  assumes "DecodeString inp s = Inr payload" "len inp < 2 ^ 63"
  shows "(inp = payload \<and> s = 0 \<and> length inp = 1 \<and> uint (inp ! 0) \<le> 127) \<or>
         (\<exists>ds sz. ReadSize inp s = Inr (True, ds, sz) \<and> s < ds \<and> ds + sz = len inp \<and>
            payload = drop (nat ds) inp)"
proof -
  from assms(1) obtain isS ds sz where rs: "ReadSize inp s = Inr (isS, ds, sz)"
    by (auto simp: DecodeString_def split: sum.splits)
  with assms(1) have isS: "isS" by (auto simp: DecodeString_def split: if_splits)
  note b = ReadSize_Inr_bounds[OF rs assms(2)]
  show ?thesis
  proof (cases "sz = 1 \<and> s = ds")
    case True
    with assms(1) rs isS have l1: "\<not> len inp > 1" and pl: "index inp ds = Inr (hd payload)" "payload = [hd payload]"
      by (auto simp: DecodeString_def split: if_splits sum.splits)
    from l1 b have s0: "s = 0" and ln: "length inp = 1" by (auto simp: len_def)
    from pl True s0 have "hd payload = inp ! 0" by (auto simp: index_def split: if_splits)
    with pl ln have "inp = payload" by (cases inp) auto
    moreover have "uint (inp ! 0) \<le> 127" using b(7) True s0 by auto
    ultimately show ?thesis using s0 ln by simp
  next
    case False
    let ?e = "int64 (ds + sz)"
    from assms(1) rs isS False have e1: "\<not> ?e > len inp" and e2: "\<not> len inp > ?e"
      and sl: "subslice inp ds ?e = Inr payload"
      by (auto simp: DecodeString_def Let_def split: if_splits)
    then have e: "?e = len inp" by simp
    have lt: "ds + sz < 2 ^ 63"
    proof (rule ccontr)
      assume "\<not> ds + sz < 2 ^ 63"
      then have "?e = ds + sz - 2 ^ 64" using b assms(2) by (intro int64_end(2)) simp_all
      then have "?e < 0" using b assms(2) by simp
      with e show False by (simp add: len_def)
    qed
    have "?e = ds + sz" using b assms(2) lt by (intro int64_end(1)) simp_all
    with e have dz: "ds + sz = len inp" by simp
    from sl e have "payload = take (nat (len inp - ds)) (drop (nat ds) inp)"
      by (auto simp: subslice_def split: if_splits)
    then have "payload = drop (nat ds) inp" using b by (simp add: len_def)
    moreover have "s < ds" using b(3,7) False by (cases "ds = s") auto
    ultimately show ?thesis using rs isS dz by auto
  qed
qed

section \<open>Round trip\<close>

lemma take_drop_split:
  assumes "0 \<le> a" "a \<le> b" "b \<le> c"
  shows "take (nat (c - a)) (drop (nat a) l) =
     take (nat (b - a)) (drop (nat a) l) @ take (nat (c - b)) (drop (nat b) l)"
proof -
  have 1: "nat (c - a) = nat (b - a) + nat (c - b)" using assms by simp
  have 2: "nat b = nat a + nat (b - a)" using assms by simp
  show ?thesis unfolding 1 by (subst 2) (simp add: take_add add.commute)
qed

lemma DecodeString_roundtrip:
  assumes ds: "DecodeString inp 0 = Inr payload" and l63: "len inp < 2 ^ 63"
    and nc: "\<not> (\<exists>b\<le>0x7F. inp = [0x81, b])"
  shows "rlp_encode_string payload = inp"
proof -
  from DecodeString_Inr[OF ds l63]
  consider (single) "inp = payload" "length inp = 1" "uint (inp ! 0) \<le> 127"
    | (other) d sz where "ReadSize inp 0 = Inr (True, d, sz)" "0 < d" "d + sz = len inp"
        "payload = drop (nat d) inp"
    by blast
  then show ?thesis
  proof cases
    case single
    then have "inp \<noteq> []" by auto
    then have "hd inp = inp ! 0" by (rule hd_conv_nth)
    with single have "hd payload \<le> 0x7F" by (simp add: byte_le_127)
    with single show ?thesis by (simp add: rlp_encode_string_def)
  next
    case other
    note b = ReadSize_Inr_bounds[OF other(1) l63]
    have hb: "take (nat d) inp = rlp_header 0x80 (nat sz)"
      using ReadSize_header_bytes[OF other(1) l63] other(2) by simp
    have lp: "length payload = nat sz" using other b by (simp add: len_def)
    have inp: "inp = rlp_header 0x80 (length payload) @ payload"
      using hb lp other(4) append_take_drop_id[of "nat d" inp] by simp
    show ?thesis
    proof (cases "length payload = 1 \<and> hd payload \<le> 0x7F")
      case True
      then have "payload = [hd payload]" by (cases payload) simp_all
      moreover have "rlp_header 0x80 (length payload) = [0x81]"
        using True by (simp add: rlp_header_def)
      ultimately have "inp = [0x81, hd payload]" using inp by simp
      with True nc show ?thesis by blast
    next
      case False
      then have "rlp_encode_string payload = rlp_header 0x80 (length payload) @ payload"
        unfolding rlp_encode_string_def by (simp only: if_False)
      also have "\<dots> = inp" by (rule inp[symmetric])
      finally show ?thesis .
    qed
  qed
qed

lemma sub_items_concat:
  assumes "sub_items inp p items e" "len inp < 2 ^ 63" "0 \<le> p" "p \<le> len inp"
  shows "\<exists>hs. length hs = length items \<and> list_all2 item_header hs items \<and>
     take (nat (e - p)) (drop (nat p) inp) = concat (map2 (@) hs items)"
  using assms
proof (induction items arbitrary: p)
  case Nil
  then show ?case by simp
next
  case (Cons x xs)
  note l63 = \<open>len inp < 2 ^ 63\<close>
  from Cons.prems(1) obtain isS ds sz where rs: "ReadSize inp p = Inr (isS, ds, sz)"
    and le: "ds + sz \<le> len inp" and x: "x = take (nat sz) (drop (nat ds) inp)"
    and rest: "sub_items inp (ds + sz) xs e"
    by (auto split: sum.splits)
  note b = ReadSize_Inr_bounds[OF rs l63]
  have e: "ds + sz \<le> e" "e \<le> len inp" using sub_items_bounds[OF rest l63 le] by auto
  from Cons.IH[OF rest l63 _ le] b obtain hs where hs: "length hs = length xs"
    "list_all2 item_header hs xs"
    "take (nat (e - (ds + sz))) (drop (nat (ds + sz)) inp) = concat (map2 (@) hs xs)"
    by auto
  let ?h = "take (nat (ds - p)) (drop (nat p) inp)"
  have lx: "length x = nat sz" using x le b by (simp add: len_def)
  have ih: "item_header ?h x"
  proof (cases "ds = p")
    case True
    with b(7) have one: "sz = 1" "uint (inp ! nat p) \<le> 127" by auto
    have "x = [inp ! nat p]"
      using x True one take_drop_head[OF b(1,2), of 0] by simp
    then show ?thesis using True one by (simp add: item_header_def byte_le_127)
  next
    case False
    then have "?h = rlp_header (if isS then 0x80 else 0xC0) (nat sz)"
      using ReadSize_header_bytes[OF rs l63] by simp
    then show ?thesis using lx by (auto simp: item_header_def)
  qed
  have "take (nat (ds + sz - p)) (drop (nat p) inp) = ?h @ take (nat (ds + sz - ds)) (drop (nat ds) inp)"
    using b by (intro take_drop_split) simp_all
  then have raw: "take (nat (ds + sz - p)) (drop (nat p) inp) = ?h @ x" using x by simp
  have "take (nat (e - p)) (drop (nat p) inp) =
      take (nat (ds + sz - p)) (drop (nat p) inp) @ take (nat (e - (ds + sz))) (drop (nat (ds + sz)) inp)"
    using b e by (intro take_drop_split) simp_all
  then have "take (nat (e - p)) (drop (nat p) inp) = concat (map2 (@) (?h # hs) (x # xs))"
    using raw hs(3) by simp
  then show ?case using hs(1,2) ih by (intro exI[of _ "?h # hs"]) simp
qed

lemma DecodeList_roundtrip:
  assumes dl: "DecodeList inp 0 = Inr items" and l63: "len inp < 2 ^ 63"
  shows "\<exists>hs. length hs = length items \<and> list_all2 item_header hs items \<and>
     inp = rlp_list_header (length (concat (map2 (@) hs items))) @ concat (map2 (@) hs items)"
proof -
  from DecodeList_Inr[OF dl l63] obtain d L where rs: "ReadSize inp 0 = Inr (False, d, L)"
    and d0: "0 < d" and dL: "d + L = len inp" and si: "sub_items inp d items (len inp)"
    by auto
  note b = ReadSize_Inr_bounds[OF rs l63]
  from sub_items_concat[OF si l63 _ b(4)] d0 obtain hs where hs: "length hs = length items"
    "list_all2 item_header hs items"
    "take (nat (len inp - d)) (drop (nat d) inp) = concat (map2 (@) hs items)"
    by auto
  let ?body = "concat (map2 (@) hs items)"
  have body: "?body = drop (nat d) inp" using hs(3) by (simp add: len_def)
  then have lb: "length ?body = nat L" using dL b by (simp add: len_def)
  have "take (nat d) inp = rlp_header 0xC0 (nat L)"
    using ReadSize_header_bytes[OF rs l63] d0 by simp
  then have "inp = rlp_list_header (length ?body) @ ?body"
    using body lb append_take_drop_id[of "nat d" inp] by (simp add: rlp_list_header_def)
  with hs(1,2) show ?thesis by blast
qed

section \<open>Truncated input\<close>

lemma ReadSize_header_cut:
  assumes s: "0 \<le> s" "s < len inp" and l: "len inp + 8 < 2 ^ 63"
    and n: "1 \<le> length_bytes (inp ! nat s)"
    and cut: "len inp < s + 1 + length_bytes (inp ! nat s)"
    and nz: "s + 1 < len inp \<longrightarrow> inp ! nat (s + 1) \<noteq> 0"
  shows "ReadSize inp s = Inl (Error ErrIncompleteInput)"
proof -
  let ?f = "inp ! nat s"
  let ?n = "length_bytes ?f"
  have l63: "len inp < 2 ^ 63" using l by simp
  have fb: "uint ?f < 256" using uint_bounded[of ?f] by simp
  from n obtain isS where rl: "ReadSize inp s = ReadSize_long inp (s + 1) ?n isS" and n8: "?n \<le> 8"
  proof (cases "0xB8 \<le> ?f \<and> ?f \<le> 0xBF")
    case True
    then have r: "184 \<le> uint ?f" "uint ?f \<le> 191" by (simp_all add: byte_le_iff)
    then have "?n = uint ?f - 183" using True by (simp add: length_bytes_def)
    with ReadSize_long_string[OF s l63 r] r that[of True] show ?thesis by simp
  next
    case False
    with n have f8: "0xF8 \<le> ?f" by (auto simp: length_bytes_def split: if_splits)
    then have r: "248 \<le> uint ?f" by (simp add: byte_le_iff)
    have "?n = uint ?f - 247" using False f8 by (simp add: length_bytes_def)
    with ReadSize_long_list[OF s l63 r] fb that[of False] show ?thesis by simp
  qed
  show ?thesis
  proof (cases "s + 1 < len inp")
    case False
    then show ?thesis using rl by (simp add: ReadSize_long_end)
  next
    case True
    with cut have n2: "2 \<le> ?n" by simp
    have c: "0 \<le> s + 1" using s by simp
    have lt: "s + 1 + ?n < 2 ^ 63" using True l n8 by simp
    from nz True have "inp ! nat (s + 1) \<noteq> 0" by simp
    then show ?thesis
      using rl ReadSize_long_many[OF c True lt n2 n8, of isS] cut by simp
  qed
qed

lemma DecodeString_past_end:
  assumes rs: "ReadSize inp s = Inr (True, ds, sz)" and l63: "len inp < 2 ^ 63"
    and pe: "len inp < ds + sz" and no: "ds + sz < 2 ^ 63"
  shows "DecodeString inp s = Inl (Error ErrIncompleteInput)"
proof -
  note b = ReadSize_Inr_bounds[OF rs l63]
  have e: "int64 (ds + sz) = ds + sz" using b no by (intro int64_end(1)) simp_all
  have "\<not> (sz = 1 \<and> s = ds)" using b pe by auto
  then show ?thesis using rs e pe by (auto simp: DecodeString_def Let_def)
qed

lemma DecodeList_loop_prefix:
  assumes "sub_items inp p0 pre p" "len inp < 2 ^ 63" "0 \<le> br" "br \<le> p0" "p0 \<le> len inp"
    "br + (p - p0) < L"
  shows "DecodeList_loop inp L p0 br acc = DecodeList_loop inp L p (br + (p - p0)) (acc @ pre)"
  using assms
proof (induction pre arbitrary: p0 br acc)
  case Nil
  then show ?case by simp
next
  case (Cons x xs)
  note l63 = \<open>len inp < 2 ^ 63\<close>
  from Cons.prems(1) obtain isS ds sz where rs: "ReadSize inp p0 = Inr (isS, ds, sz)"
    and le: "ds + sz \<le> len inp" and x: "x = take (nat sz) (drop (nat ds) inp)"
    and rest: "sub_items inp (ds + sz) xs p"
    by (auto split: sum.splits)
  have adv: "p0 < ds + sz" using rs l63 by (rule ReadSize_item_end)
  have pe: "ds + sz \<le> p" using sub_items_bounds[OF rest l63 le] by simp
  have brL: "br < L" using Cons.prems(6) adv pe by simp
  have "DecodeList_loop inp L p0 br acc =
      DecodeList_loop inp L (ds + sz) (br + (ds + sz - p0)) (acc @ [x])"
    unfolding x by (rule DecodeList_loop_step[OF brL rs l63 le Cons.prems(3,4)])
  also have "\<dots> = DecodeList_loop inp L p (br + (ds + sz - p0) + (p - (ds + sz))) ((acc @ [x]) @ xs)"
    using Cons.prems adv by (intro Cons.IH[OF rest l63 _ _ le]) simp_all
  finally show ?case by (simp add: algebra_simps)
qed

lemma DecodeList_sub_item_incomplete:
  assumes rs: "ReadSize inp s = Inr (False, d, L)" and l63: "len inp < 2 ^ 63"
    and pre: "sub_items inp d pre p" and more: "p - d < L"
    and bad: "ReadSize inp p = Inl (Error ErrIncompleteInput) \<or>
       (\<exists>isS ds sz. ReadSize inp p = Inr (isS, ds, sz) \<and> len inp < ds + sz \<and> ds + sz < 2 ^ 63)"
  shows "DecodeList inp s = Inl (Error ErrIncompleteInput)"
proof -
  note b = ReadSize_Inr_bounds[OF rs l63]
  have d0: "0 \<le> d" using b by simp
  have "DecodeList_loop inp L d 0 [] = DecodeList_loop inp L p (0 + (p - d)) ([] @ pre)"
    using more by (intro DecodeList_loop_prefix[OF pre l63 _ d0 b(4)]) simp_all
  also have "\<dots> = Inl (Error ErrIncompleteInput)"
    using bad
  proof
    assume "ReadSize inp p = Inl (Error ErrIncompleteInput)"
    then show ?thesis using more by (intro DecodeList_loop_error) simp_all
  next
    assume "\<exists>isS ds sz. ReadSize inp p = Inr (isS, ds, sz) \<and> len inp < ds + sz \<and> ds + sz < 2 ^ 63"
    then obtain isS ds sz where "ReadSize inp p = Inr (isS, ds, sz)" "len inp < ds + sz" "ds + sz < 2 ^ 63"
      by blast
    then show ?thesis using more l63 by (intro DecodeList_loop_past_end[of _ _ _ _ isS ds sz]) simp_all
  qed
  finally show ?thesis using rs by (simp add: DecodeList_def)
qed

section \<open>Overflow of the end index\<close>

text \<open>
  The end index \<open>dataStartIndex + dataSize\<close> is computed without an overflow check.  When
  it passes \<open>2\<^sup>6\<^sup>3 - 1\<close> it wraps to a negative number: \<^verbatim>\<open>DecodeString\<close> then reports
  \<^verbatim>\<open>InputContainsExtraBytes\<close>, and \<^verbatim>\<open>DecodeList\<close> panics in its slice expression.  For a
  start index \<open>s \<ge> 0\<close> this is the only panic of the two decoders.
\<close>

lemma DecodeString_overflow:
  assumes rs: "ReadSize inp s = Inr (True, ds, sz)" and l63: "len inp < 2 ^ 63"
    and ov: "2 ^ 63 \<le> ds + sz"
  shows "DecodeString inp s = Inl (Error ErrInputContainsExtraBytes)"
proof -
  note b = ReadSize_Inr_bounds[OF rs l63]
  define e where "e = ds + sz - 2 ^ 64"
  have "int64 (ds + sz) = ds + sz - 2 ^ 64" using b ov l63 by (intro int64_end(2)) simp_all
  then have e: "int64 (ds + sz) = e" by (simp add: e_def)
  have "e < 0" using b l63 by (simp add: e_def)
  then have c: "\<not> len inp < e" "e < len inp" by (simp_all add: len_def)
  have "\<not> (sz = 1 \<and> s = ds)" using b ov l63 by auto
  then show ?thesis using rs e c by (auto simp: DecodeString_def Let_def)
qed

lemma DecodeList_sub_item_overflow:
  assumes rs: "ReadSize inp s = Inr (False, d, L)" and l63: "len inp < 2 ^ 63"
    and pre: "sub_items inp d pre p" and more: "p - d < L"
    and it: "ReadSize inp p = Inr (isS, ds, sz)" and ov: "2 ^ 63 \<le> ds + sz"
  shows "DecodeList inp s = Inl Panic"
proof -
  note b = ReadSize_Inr_bounds[OF rs l63]
  have d0: "0 \<le> d" using b by simp
  have "DecodeList_loop inp L d 0 [] = DecodeList_loop inp L p (0 + (p - d)) ([] @ pre)"
    using more by (intro DecodeList_loop_prefix[OF pre l63 _ d0 b(4)]) simp_all
  also have "\<dots> = Inl Panic"
    using more by (intro DecodeList_loop_overflow[OF _ it l63 ov]) simp
  finally show ?thesis using rs by (simp add: DecodeList_def)
qed

lemma DecodeList_loop_panic:
  assumes "DecodeList_loop inp L p br acc = Inl Panic"
    and "len inp + 8 < 2 ^ 63" "0 \<le> br" "br \<le> p" "p \<le> len inp"
  shows "\<exists>q isS ds sz. ReadSize inp q = Inr (isS, ds, sz) \<and> 2 ^ 63 \<le> ds + sz"
  using assms
proof (induction "nat (len inp - p)" arbitrary: p br acc rule: less_induct)
  case less
  have l63: "len inp < 2 ^ 63" using less.prems(2) by simp
  have brL: "br < L"
    using less.prems(1) by (cases "br < L") (simp_all add: DecodeList_loop_done)
  have p0: "0 \<le> p" using less.prems(3,4) by simp
  show ?case
  proof (cases "ReadSize inp p")
    case (Inl f)
    with brL less.prems(1) have "ReadSize inp p = Inl Panic" by (simp add: DecodeList_loop_error)
    with ReadSize_no_panic[OF p0 less.prems(2)] show ?thesis by simp
  next
    case (Inr r)
    then obtain isS ds sz where rs: "ReadSize inp p = Inr (isS, ds, sz)" by (cases r) auto
    show ?thesis
    proof (cases "2 ^ 63 \<le> ds + sz")
      case True
      with rs show ?thesis by blast
    next
      case False
      then have lt: "ds + sz < 2 ^ 63" by simp
      have le: "ds + sz \<le> len inp"
      proof (rule ccontr)
        assume "\<not> ds + sz \<le> len inp"
        with DecodeList_loop_past_end[OF brL rs l63 _ lt, of acc] less.prems(1)
        show False by simp
      qed
      let ?item = "take (nat sz) (drop (nat ds) inp)"
      have adv: "p < ds + sz" using rs l63 by (rule ReadSize_item_end)
      have rec: "DecodeList_loop inp L (ds + sz) (br + (ds + sz - p)) (acc @ [?item]) = Inl Panic"
        using DecodeList_loop_step[OF brL rs l63 le less.prems(3,4), of acc] less.prems(1) by simp
      show ?thesis
        using adv le less.prems(3,4)
        by (intro less.hyps[OF _ rec less.prems(2)]) simp_all
    qed
  qed
qed

lemma DecodeList_panic_overflow:
  assumes "DecodeList inp s = Inl Panic" "0 \<le> s" "len inp + 8 < 2 ^ 63"
  shows "\<exists>q isS ds sz. ReadSize inp q = Inr (isS, ds, sz) \<and> 2 ^ 63 \<le> ds + sz"
proof -
  have l63: "len inp < 2 ^ 63" using assms(3) by simp
  from ReadSize_no_panic[OF assms(2,3)] assms(1)
  obtain d L where rs: "ReadSize inp s = Inr (False, d, L)"
    and lp: "DecodeList_loop inp L d 0 [] = Inl Panic"
    by (auto simp: DecodeList_def split: sum.splits if_splits prod.splits)
  note b = ReadSize_Inr_bounds[OF rs l63]
  have "0 \<le> d" using b by simp
  from DecodeList_loop_panic[OF lp assms(3) _ this b(4)] show ?thesis by simp
qed

lemma DecodeString_no_panic:
  assumes "0 \<le> s" "len inp + 8 < 2 ^ 63"
  shows "DecodeString inp s \<noteq> Inl Panic"
proof (cases "ReadSize inp s")
  case (Inl f)
  with ReadSize_no_panic[OF assms] have "f \<noteq> Panic" by auto
  with Inl show ?thesis by (simp add: DecodeString_def)
next
  case (Inr r)
  then obtain isS ds sz where rs: "ReadSize inp s = Inr (isS, ds, sz)" by (cases r) auto
  have l63: "len inp < 2 ^ 63" using assms(2) by simp
  note b = ReadSize_Inr_bounds[OF rs l63]
  have i: "index inp ds \<noteq> Inl Panic \<or> ds \<noteq> s"
    using b(1,2) by (auto simp: index_def)
  have sl: "\<And>e. \<not> len inp < e \<Longrightarrow> \<not> e < len inp \<Longrightarrow> subslice inp ds e \<noteq> Inl Panic"
    using b by (auto simp: subslice_def)
  show ?thesis
    using rs i sl[of "int64 (ds + sz)"]
    by (auto simp: DecodeString_def Let_def split: sum.splits)
qed

section \<open>Claims settled by running the decoder\<close>

text \<open>
  C9.  \<^verbatim>\<open>decode_list([0xC8, 0x83, 0x41, 0x42, 0x43, 0x83, 0x45, 0x46, 0x47], 0)\<close> succeeds
  and returns exactly the two-element sequence \<^verbatim>\<open>[[0x41, 0x42, 0x43], [0x45, 0x46, 0x47]]\<close>.
\<close>

theorem DecodeList_two_strings:
  "DecodeList [0xC8, 0x83, 0x41, 0x42, 0x43, 0x83, 0x45, 0x46, 0x47] 0 =
     Inr [[0x41, 0x42, 0x43], [0x45, 0x46, 0x47]]"
  by code_simp

text \<open>
  C3.  The claim is that \<^verbatim>\<open>decode_list\<close> never panics for a start index \<open>s \<ge> 0\<close>.
  On the ten-byte buffer below the list payload is one long string whose header declares
  \<open>2\<^sup>6\<^sup>3 - 1\<close> payload bytes: \<^verbatim>\<open>itemEndIndex = 10 + (2^63 - 1)\<close> wraps to a negative number,
  the test \<^verbatim>\<open>itemEndIndex > len(inp)\<close> lets it pass, and the slice expression
  \<^verbatim>\<open>inp[itemDataStartIndex:itemEndIndex]\<close> panics.  Such an overflow is the only way to a
  panic for \<open>s \<ge> 0\<close> (lemma \<open>DecodeList_panic_overflow\<close>).
\<close>

theorem DecodeList_overflow_panics:
  "ReadSize [0xC9, 0xBF, 0x7F, 0xFF, 0xFF, 0xFF, 0xFF, 0xFF, 0xFF, 0xFF] 1 = Inr (True, 10, 2 ^ 63 - 1) \<and>
   int64 (10 + (2 ^ 63 - 1)) = - (2 ^ 63) + 9 \<and>
   DecodeList [0xC9, 0xBF, 0x7F, 0xFF, 0xFF, 0xFF, 0xFF, 0xFF, 0xFF, 0xFF] 0 = Inl Panic"
  by code_simp

text \<open>
  C4.  The claim is that the one-byte string \<open>b \<le> 0x7F\<close> written in short-string form
  \<^verbatim>\<open>[0x81, b]\<close> is rejected.  \<^verbatim>\<open>DecodeString\<close> accepts it, so the string \<^verbatim>\<open>[0x05]\<close> has two
  accepted encodings.
\<close>

theorem DecodeString_accepts_two_encodings:
  "DecodeString [0x81, 0x05] 0 = Inr [0x05] \<and> DecodeString [0x05] 0 = Inr [0x05]"
  by code_simp

text \<open>
  C5.  The claim is that an overflowing end index is reported as \<^verbatim>\<open>IncompleteInput\<close>.
  For the nine-byte header below \<^verbatim>\<open>dataEndIndex = 9 + (2^63 - 1)\<close> wraps to a negative
  number; \<^verbatim>\<open>DecodeString\<close> then reports \<^verbatim>\<open>InputContainsExtraBytes\<close>, as it does on
  every overflow (lemma \<open>DecodeString_overflow\<close>), and \<^verbatim>\<open>DecodeList\<close> panics (lemma
  \<open>DecodeList_sub_item_overflow\<close>).
\<close>

theorem DecodeString_overflow_extra_bytes:
  "ReadSize [0xBF, 0x7F, 0xFF, 0xFF, 0xFF, 0xFF, 0xFF, 0xFF, 0xFF] 0 = Inr (True, 9, 2 ^ 63 - 1) \<and>
   int64 (9 + (2 ^ 63 - 1)) = - (2 ^ 63) + 8 \<and>
   DecodeString [0xBF, 0x7F, 0xFF, 0xFF, 0xFF, 0xFF, 0xFF, 0xFF, 0xFF] 0 =
     Inl (Error ErrInputContainsExtraBytes)"
  by code_simp

section \<open>Claims about \<^verbatim>\<open>ReadSize\<close>\<close>

text \<open>
  C8.  Single-byte slot: for every buffer \<open>B\<close> and every valid start index \<open>s\<close>
  (\<open>0 \<le> s < |B|\<close>), \<^verbatim>\<open>read_prefix(B, s)\<close> returns exactly \<open>(true, s, 1)\<close> if and only if
  \<open>B[s] \<le> 0x7F\<close>.  The length of the buffer is a Go \<^verbatim>\<open>int\<close>.
\<close>

theorem ReadSize_single_byte_slot:
  assumes "0 \<le> s" "s < len inp" "len inp < 2 ^ 63"
  shows "ReadSize inp s = Inr (True, s, 1) \<longleftrightarrow> inp ! nat s \<le> 0x7F"
proof
  assume rs: "ReadSize inp s = Inr (True, s, 1)"
  from rs assms(3) have "uint (inp ! nat s) \<le> 127"
    by (cases rule: ReadSize_InrE) simp_all
  then show "inp ! nat s \<le> 0x7F" by (simp add: byte_le_127)
next
  assume "inp ! nat s \<le> 0x7F"
  then have "uint (inp ! nat s) \<le> 127" by (simp add: byte_le_127)
  then show "ReadSize inp s = Inr (True, s, 1)" using assms by (rule ReadSize_single[rotated 3])
qed

theorem ReadSize_single_byte_slot_witness:
  "(0 :: int) \<le> 1 \<and> 1 < len [0xC1, 0x41] \<and> len [0xC1, 0x41] < 2 ^ 63 \<and>
   ReadSize [0xC1, 0x41] 1 = Inr (True, 1, 1) \<and> [0xC1, 0x41 :: byte] ! nat 1 \<le> 0x7F"
proof -
  have h: "(0 :: int) \<le> 1" "1 < len [0xC1, 0x41]" "len [0xC1, 0x41] < 2 ^ 63"
    by (simp_all add: len_def)
  have b: "[0xC1, 0x41 :: byte] ! nat 1 \<le> 0x7F" by simp
  from ReadSize_single_byte_slot[OF h] b h show ?thesis by simp
qed

text \<open>
  C6.  On every successful return of \<^verbatim>\<open>read_prefix(B, s)\<close> all bytes of the item header
  (the tag byte at \<open>s\<close> and any length bytes, up to \<open>payload_start\<close>) lie within \<open>B\<close>, but
  \<open>payload_start + payload_len \<le> |B|\<close> is not required: for the nine-byte buffer below
  \<^verbatim>\<open>read_prefix\<close> succeeds with \<open>(true, 9, 2\<^sup>6\<^sup>3 - 1)\<close>, a payload far past the end.
\<close>

theorem ReadSize_header_within_buffer:
  "(ReadSize inp s = Inr (isS, ds, sz) \<and> len inp < 2 ^ 63 \<longrightarrow>
      0 \<le> s \<and> s < len inp \<and> s \<le> ds \<and> ds \<le> len inp) \<and>
   ReadSize [0xBF, 0x7F, 0xFF, 0xFF, 0xFF, 0xFF, 0xFF, 0xFF, 0xFF] 0 = Inr (True, 9, 2 ^ 63 - 1) \<and>
   \<not> 9 + (2 ^ 63 - 1) \<le> len [0xBF, 0x7F, 0xFF, 0xFF, 0xFF, 0xFF, 0xFF, 0xFF, 0xFF]"
proof (intro conjI impI)
  assume a: "ReadSize inp s = Inr (isS, ds, sz) \<and> len inp < 2 ^ 63"
  then have rs: "ReadSize inp s = Inr (isS, ds, sz)" and l63: "len inp < 2 ^ 63" by auto
  from ReadSize_index[OF rs] show "0 \<le> s" "s < len inp" by auto
  from ReadSize_index[OF rs] have s: "s < len inp" by auto
  from rs l63 show "s \<le> ds" by (cases rule: ReadSize_InrE) simp_all
  from rs l63 show "ds \<le> len inp" using s by (cases rule: ReadSize_InrE) simp_all
next
  show "ReadSize [0xBF, 0x7F, 0xFF, 0xFF, 0xFF, 0xFF, 0xFF, 0xFF, 0xFF] 0 = Inr (True, 9, 2 ^ 63 - 1)"
    by code_simp
  show "\<not> 9 + (2 ^ 63 - 1) \<le> len [0xBF, 0x7F, 0xFF, 0xFF, 0xFF, 0xFF, 0xFF, 0xFF, 0xFF]"
    by (simp add: len_def)
qed

theorem ReadSize_header_within_buffer_witness:
  "ReadSize [0xB9, 0x01, 0x02] 0 = Inr (True, 3, 258) \<and> len [0xB9, 0x01, 0x02] < 2 ^ 63 \<and>
   (0 :: int) \<le> 0 \<and> 0 < len [0xB9, 0x01, 0x02] \<and> (0 :: int) \<le> 3 \<and> 3 \<le> len [0xB9, 0x01, 0x02]"
proof -
  have r: "ReadSize [0xB9, 0x01, 0x02] 0 = Inr (True, 3, 258)" by code_simp
  have l: "len [0xB9, 0x01, 0x02] < 2 ^ 63" by (simp add: len_def)
  from ReadSize_header_within_buffer[of "[0xB9, 0x01, 0x02]" 0 True 3 258] r l
  show ?thesis by simp
qed

text \<open>
  C10.  \<^verbatim>\<open>ReadSize\<close> guards against a start index that is too large (\<^verbatim>\<open>InvalidStartIndex\<close>,
  after the \<^verbatim>\<open>EmptyInput\<close> check), not against a negative one.  For \<open>startIndex \<ge> 0\<close>
  every index and slice expression of \<^verbatim>\<open>ReadSize\<close> is in range: it never panics (the
  buffer leaves room for \<open>len + 8\<close> in a Go \<^verbatim>\<open>int\<close>).  A negative start index on a
  non-empty buffer reaches the unguarded \<^verbatim>\<open>inp[startIndex]\<close> and panics, in \<^verbatim>\<open>ReadSize\<close>
  and so in \<^verbatim>\<open>DecodeString\<close> and \<^verbatim>\<open>DecodeList\<close>.
\<close>

theorem ReadSize_start_index_guard:
  "(inp = [] \<longrightarrow> ReadSize inp s = Inl (Error ErrEmptyInput)) \<and>
   (inp \<noteq> [] \<and> len inp \<le> s \<longrightarrow> ReadSize inp s = Inl (Error ErrInvalidStartIndex)) \<and>
   (0 \<le> s \<and> len inp + 8 < 2 ^ 63 \<longrightarrow> ReadSize inp s \<noteq> Inl Panic) \<and>
   (s < 0 \<and> inp \<noteq> [] \<longrightarrow>
      ReadSize inp s = Inl Panic \<and> DecodeString inp s = Inl Panic \<and> DecodeList inp s = Inl Panic)"
proof (intro conjI impI)
  assume "inp = []"
  then show "ReadSize inp s = Inl (Error ErrEmptyInput)" by (simp add: ReadSize_def len_def)
next
  assume "inp \<noteq> [] \<and> len inp \<le> s"
  then show "ReadSize inp s = Inl (Error ErrInvalidStartIndex)" by (simp add: ReadSize_def len_def)
next
  assume "0 \<le> s \<and> len inp + 8 < 2 ^ 63"
  then show "ReadSize inp s \<noteq> Inl Panic" using ReadSize_no_panic by blast
next
  assume a: "s < 0 \<and> inp \<noteq> []"
  then show "ReadSize inp s = Inl Panic" using ReadSize_negative by blast
  then show "DecodeString inp s = Inl Panic" by (simp add: DecodeString_def)
  from a show "DecodeList inp s = Inl Panic" using ReadSize_negative by (simp add: DecodeList_def)
qed

theorem ReadSize_start_index_guard_witness:
  "ReadSize [] 0 = Inl (Error ErrEmptyInput) \<and>
   ReadSize [0x00] 1 = Inl (Error ErrInvalidStartIndex) \<and>
   ReadSize [0xB9, 0x01] 0 \<noteq> Inl Panic \<and>
   ReadSize [0x00] (- 1) = Inl Panic \<and> DecodeString [0x00] (- 1) = Inl Panic \<and>
   DecodeList [0x00] (- 1) = Inl Panic"
  using ReadSize_start_index_guard[of "[]" 0] ReadSize_start_index_guard[of "[0x00]" 1]
    ReadSize_start_index_guard[of "[0xB9, 0x01]" 0] ReadSize_start_index_guard[of "[0x00]" "- 1"]
  by (simp add: len_def)

section \<open>Claims about what \<^verbatim>\<open>DecodeList\<close> and \<^verbatim>\<open>DecodeString\<close> return\<close>

text \<open>
  C1.  The claim is that each element returned by \<^verbatim>\<open>decode_list\<close> is the raw, still-encoded
  sub-item, header and payload, so that \<^verbatim>\<open>decode_list([0xC1, 0xC0], 0)\<close> would return
  \<^verbatim>\<open>[[0xC0]]\<close>.  The loop appends \<^verbatim>\<open>inp[itemDataStartIndex:itemEndIndex]\<close>, the payload
  without the header, and the nested empty list comes back as the empty slice.
\<close>

theorem DecodeList_raw_items_counterexample:
  "DecodeList [0xC1, 0xC0] 0 = Inr [[]] \<and> DecodeList [0xC1, 0xC0] 0 \<noteq> Inr [[0xC0]]"
  by code_simp

text \<open>
  C1, as amended.  For every buffer \<open>B\<close> that \<^verbatim>\<open>decode_list(B, 0)\<close> accepts, the top-level
  item is a list whose payload runs to the end of \<open>B\<close>, and the returned sequence lists, in
  order, the sub-items that tile this payload: each element is the payload
  \<open>B[sub_start .. sub_start + sub_len)\<close> of one sub-item as \<^verbatim>\<open>read_prefix\<close> locates it, without
  its header (for a single byte up to \<open>0x7F\<close> the byte itself), and the next sub-item starts
  where this payload ends.  In particular \<^verbatim>\<open>decode_list([0xC1, 0xC0], 0)\<close> returns a sequence
  of length 1 whose single element is the empty slice.
\<close>

theorem DecodeList_returns_payloads:
  "(DecodeList inp 0 = Inr items \<and> len inp < 2 ^ 63 \<longrightarrow>
      (\<exists>ds L. ReadSize inp 0 = Inr (False, ds, L) \<and> ds + L = len inp \<and>
         sub_items inp ds items (len inp))) \<and>
   DecodeList [0xC1, 0xC0] 0 = Inr [[]]"
proof (intro conjI impI)
  assume "DecodeList inp 0 = Inr items \<and> len inp < 2 ^ 63"
  then show "\<exists>ds L. ReadSize inp 0 = Inr (False, ds, L) \<and> ds + L = len inp \<and>
         sub_items inp ds items (len inp)"
    using DecodeList_Inr[of inp 0 items] by blast
next
  show "DecodeList [0xC1, 0xC0] 0 = Inr [[]]" by code_simp
qed

theorem DecodeList_returns_payloads_witness:
  "DecodeList [0xC8, 0x83, 0x41, 0x42, 0x43, 0x83, 0x45, 0x46, 0x47] 0 =
     Inr [[0x41, 0x42, 0x43], [0x45, 0x46, 0x47]] \<and>
   len [0xC8, 0x83, 0x41, 0x42, 0x43, 0x83, 0x45, 0x46, 0x47] < 2 ^ 63 \<and>
   (\<exists>ds L. ReadSize [0xC8, 0x83, 0x41, 0x42, 0x43, 0x83, 0x45, 0x46, 0x47] 0 = Inr (False, ds, L) \<and>
      ds + L = len [0xC8, 0x83, 0x41, 0x42, 0x43, 0x83, 0x45, 0x46, 0x47] \<and>
      sub_items [0xC8, 0x83, 0x41, 0x42, 0x43, 0x83, 0x45, 0x46, 0x47] ds
        [[0x41, 0x42, 0x43], [0x45, 0x46, 0x47]]
        (len [0xC8, 0x83, 0x41, 0x42, 0x43, 0x83, 0x45, 0x46, 0x47]))"
proof -
  let ?B = "[0xC8, 0x83, 0x41, 0x42, 0x43, 0x83, 0x45, 0x46, 0x47] :: byte list"
  have d: "DecodeList ?B 0 = Inr [[0x41, 0x42, 0x43], [0x45, 0x46, 0x47]]" by code_simp
  have l: "len ?B < 2 ^ 63" by (simp add: len_def)
  from DecodeList_returns_payloads[of ?B "[[0x41, 0x42, 0x43], [0x45, 0x46, 0x47]]"] d l
  show ?thesis by blast
qed

text \<open>
  C2.  The claim is the round-trip law: re-encoding what \<^verbatim>\<open>decode_string\<close> returns gives
  the buffer back, and so does prefixing the concatenation of what \<^verbatim>\<open>decode_list\<close> returns
  with the list header.  \<^verbatim>\<open>[0x81, 0x05]\<close> decodes to the string \<^verbatim>\<open>[0x05]\<close>, whose encoding
  is \<^verbatim>\<open>[0x05]\<close>; \<^verbatim>\<open>[0xC1, 0xC0]\<close> decodes to one empty element, and the header of an
  empty payload is \<^verbatim>\<open>[0xC0]\<close> alone.
\<close>

theorem decode_roundtrip_counterexample:
  "DecodeString [0x81, 0x05] 0 = Inr [0x05] \<and>
   rlp_encode_string [0x05] \<noteq> [0x81, 0x05] \<and>
   DecodeList [0xC1, 0xC0] 0 = Inr [[]] \<and>
   rlp_list_header (length (concat [[] :: byte list])) @ concat [[]] \<noteq> [0xC1, 0xC0]"
  by code_simp

text \<open>
  C2, as amended.  For every buffer \<open>B\<close> accepted by \<^verbatim>\<open>decode_string(B, 0)\<close>, other than the
  short-string form \<^verbatim>\<open>[0x81, b]\<close> of a single byte \<open>b \<le> 0x7F\<close>, encoding the returned
  payload by the standard RLP rules yields exactly \<open>B\<close>.  For every buffer \<open>B\<close> accepted by
  \<^verbatim>\<open>decode_list(B, 0)\<close> returning \<open>e\<^sub>0 \<dots> e\<^sub>k\<^sub>-\<^sub>1\<close> there are sub-item headers
  \<open>h\<^sub>0 \<dots> h\<^sub>k\<^sub>-\<^sub>1\<close>, each the standard string or list header for the length of its \<open>e\<^sub>i\<close>
  (or empty, when \<open>e\<^sub>i\<close> is a single byte up to \<open>0x7F\<close> that stands for itself), such that
  concatenating the \<open>h\<^sub>i e\<^sub>i\<close> and prefixing the list header for their total length yields
  exactly \<open>B\<close>.
\<close>

theorem decode_roundtrip:
  "(DecodeString inp 0 = Inr payload \<and> len inp < 2 ^ 63 \<and> \<not> (\<exists>b\<le>0x7F. inp = [0x81, b]) \<longrightarrow>
      rlp_encode_string payload = inp) \<and>
   (DecodeList inp 0 = Inr items \<and> len inp < 2 ^ 63 \<longrightarrow>
      (\<exists>hs. length hs = length items \<and> list_all2 item_header hs items \<and>
         inp = rlp_list_header (length (concat (map2 (@) hs items))) @
               concat (map2 (@) hs items)))"
  using DecodeString_roundtrip[of inp payload] DecodeList_roundtrip[of inp items] by blast

theorem decode_roundtrip_witness:
  "DecodeString [0x83, 0x64, 0x6F, 0x67] 0 = Inr [0x64, 0x6F, 0x67] \<and>
   len [0x83, 0x64, 0x6F, 0x67] < 2 ^ 63 \<and>
   \<not> (\<exists>b\<le>0x7F. [0x83, 0x64, 0x6F, 0x67] = [0x81, b :: byte]) \<and>
   rlp_encode_string [0x64, 0x6F, 0x67] = [0x83, 0x64, 0x6F, 0x67] \<and>
   DecodeList [0xC8, 0x83, 0x41, 0x42, 0x43, 0x83, 0x45, 0x46, 0x47] 0 =
     Inr [[0x41, 0x42, 0x43], [0x45, 0x46, 0x47]] \<and>
   (\<exists>hs. length hs = length [[0x41, 0x42, 0x43], [0x45, 0x46, 0x47 :: byte]] \<and>
      list_all2 item_header hs [[0x41, 0x42, 0x43], [0x45, 0x46, 0x47]] \<and>
      [0xC8, 0x83, 0x41, 0x42, 0x43, 0x83, 0x45, 0x46, 0x47] =
        rlp_list_header (length (concat (map2 (@) hs [[0x41, 0x42, 0x43], [0x45, 0x46, 0x47]]))) @
        concat (map2 (@) hs [[0x41, 0x42, 0x43], [0x45, 0x46, 0x47]]))"
proof -
  let ?S = "[0x83, 0x64, 0x6F, 0x67] :: byte list"
  let ?B = "[0xC8, 0x83, 0x41, 0x42, 0x43, 0x83, 0x45, 0x46, 0x47] :: byte list"
  have s: "DecodeString ?S 0 = Inr [0x64, 0x6F, 0x67]" by code_simp
  have sl: "len ?S < 2 ^ 63" by (simp add: len_def)
  have sn: "\<not> (\<exists>b\<le>0x7F. ?S = [0x81, b :: byte])" by simp
  have d: "DecodeList ?B 0 = Inr [[0x41, 0x42, 0x43], [0x45, 0x46, 0x47]]" by code_simp
  have dl: "len ?B < 2 ^ 63" by (simp add: len_def)
  from decode_roundtrip[of ?S "[0x64, 0x6F, 0x67]" "[]"]
    decode_roundtrip[of ?B "[]" "[[0x41, 0x42, 0x43], [0x45, 0x46, 0x47]]"]
    s sl sn d dl
  show ?thesis by blast
qed

section \<open>Claims about \<^verbatim>\<open>IncompleteInput\<close>\<close>

text \<open>
  C7.  The claim is that a length header or a declared payload that extends past the end
  of the buffer makes \<^verbatim>\<open>decode_string\<close> and \<^verbatim>\<open>decode_list\<close> fail with
  \<^verbatim>\<open>IncompleteInput\<close> and with no other error, \<^verbatim>\<open>decode_list([0xC1], 0)\<close> included.  The
  truncated list \<^verbatim>\<open>[0xC1]\<close> is reported as \<^verbatim>\<open>InvalidStartIndex\<close>; the truncated string
  \<^verbatim>\<open>[0x83, 0x64]\<close> given to \<^verbatim>\<open>DecodeList\<close> is a \<^verbatim>\<open>TypeMismatch\<close>; the two-byte length
  header of \<^verbatim>\<open>[0xB9, 0x00]\<close> is cut off, and its leading zero is reported first, as
  \<^verbatim>\<open>NonCanonicalInput\<close>.
\<close>

theorem IncompleteInput_counterexample:
  "DecodeList [0xC1] 0 = Inl (Error ErrInvalidStartIndex) \<and>
   DecodeList [0x83, 0x64] 0 = Inl (Error ErrTypeMismatch) \<and>
   DecodeString [0xB9, 0x00] 0 = Inl (Error ErrNonCanonicalInput)"
  by code_simp

text \<open>
  C7, as amended.  \<^verbatim>\<open>IncompleteInput\<close> is the error of \<^verbatim>\<open>decode_string\<close> and
  \<^verbatim>\<open>decode_list\<close> in these cases:
  \<^item> the item at the start index has a long-form tag and its length bytes are cut off by
    the end of the buffer, unless the first of them is present and zero (both decoders, and
    \<^verbatim>\<open>read_prefix\<close>);
  \<^item> \<^verbatim>\<open>decode_string\<close>: the top-level item is a string whose declared payload end
    \<open>payload_start + payload_len\<close>, below \<open>2\<^sup>6\<^sup>3\<close>, lies past the end of the buffer;
  \<^item> \<^verbatim>\<open>decode_list\<close>: the top-level item is a list and, after zero or more sub-items that
    lie within the buffer and before the declared list length is used up, the next sub-item
    has its length header cut off in this way, or has a declared payload end, below
    \<open>2\<^sup>6\<^sup>3\<close>, past the end of the buffer.
\<close>

theorem IncompleteInput_cases:
  "(0 \<le> s \<and> s < len inp \<and> len inp + 8 < 2 ^ 63 \<and>
    1 \<le> length_bytes (inp ! nat s) \<and> len inp < s + 1 + length_bytes (inp ! nat s) \<and>
    (s + 1 < len inp \<longrightarrow> inp ! nat (s + 1) \<noteq> 0) \<longrightarrow>
      ReadSize inp s = Inl (Error ErrIncompleteInput) \<and>
      DecodeString inp s = Inl (Error ErrIncompleteInput) \<and>
      DecodeList inp s = Inl (Error ErrIncompleteInput)) \<and>
   (ReadSize inp s = Inr (True, ds, sz) \<and> len inp < 2 ^ 63 \<and>
    len inp < ds + sz \<and> ds + sz < 2 ^ 63 \<longrightarrow>
      DecodeString inp s = Inl (Error ErrIncompleteInput)) \<and>
   (ReadSize inp s = Inr (False, d, L) \<and> len inp < 2 ^ 63 \<and>
    sub_items inp d pre p \<and> p - d < L \<and>
    (ReadSize inp p = Inl (Error ErrIncompleteInput) \<or>
     (\<exists>isS ds sz. ReadSize inp p = Inr (isS, ds, sz) \<and> len inp < ds + sz \<and> ds + sz < 2 ^ 63)) \<longrightarrow>
      DecodeList inp s = Inl (Error ErrIncompleteInput))"
proof (intro conjI impI)
  assume a: "0 \<le> s \<and> s < len inp \<and> len inp + 8 < 2 ^ 63 \<and>
    1 \<le> length_bytes (inp ! nat s) \<and> len inp < s + 1 + length_bytes (inp ! nat s) \<and>
    (s + 1 < len inp \<longrightarrow> inp ! nat (s + 1) \<noteq> 0)"
  then show r: "ReadSize inp s = Inl (Error ErrIncompleteInput)"
    by (intro ReadSize_header_cut) simp_all
  from r show "DecodeString inp s = Inl (Error ErrIncompleteInput)"
    by (simp add: DecodeString_def)
  from r show "DecodeList inp s = Inl (Error ErrIncompleteInput)"
    by (simp add: DecodeList_def)
next
  assume "ReadSize inp s = Inr (True, ds, sz) \<and> len inp < 2 ^ 63 \<and>
    len inp < ds + sz \<and> ds + sz < 2 ^ 63"
  then show "DecodeString inp s = Inl (Error ErrIncompleteInput)"
    by (intro DecodeString_past_end[of inp s ds sz]) simp_all
next
  assume "ReadSize inp s = Inr (False, d, L) \<and> len inp < 2 ^ 63 \<and>
    sub_items inp d pre p \<and> p - d < L \<and>
    (ReadSize inp p = Inl (Error ErrIncompleteInput) \<or>
     (\<exists>isS ds sz. ReadSize inp p = Inr (isS, ds, sz) \<and> len inp < ds + sz \<and> ds + sz < 2 ^ 63))"
  then show "DecodeList inp s = Inl (Error ErrIncompleteInput)"
    by (intro DecodeList_sub_item_incomplete[of inp s d L pre p]) simp_all
qed

theorem IncompleteInput_cases_witness:
  "ReadSize [0xB9, 0x01] 0 = Inl (Error ErrIncompleteInput) \<and>
   DecodeString [0xB9, 0x01] 0 = Inl (Error ErrIncompleteInput) \<and>
   DecodeList [0xB9, 0x01] 0 = Inl (Error ErrIncompleteInput) \<and>
   ReadSize [0x83, 0x64, 0x6F] 0 = Inr (True, 1, 3) \<and>
   DecodeString [0x83, 0x64, 0x6F] 0 = Inl (Error ErrIncompleteInput) \<and>
   ReadSize [0xC4, 0x41, 0x83, 0x42] 0 = Inr (False, 1, 4) \<and>
   sub_items [0xC4, 0x41, 0x83, 0x42] 1 [[0x41]] 2 \<and>
   ReadSize [0xC4, 0x41, 0x83, 0x42] 2 = Inr (True, 3, 3) \<and>
   DecodeList [0xC4, 0x41, 0x83, 0x42] 0 = Inl (Error ErrIncompleteInput)"
proof -
  let ?A = "[0xB9, 0x01] :: byte list"
  let ?S = "[0x83, 0x64, 0x6F] :: byte list"
  let ?L = "[0xC4, 0x41, 0x83, 0x42] :: byte list"
  have a: "0 \<le> (0 :: int) \<and> 0 < len ?A \<and> len ?A + 8 < 2 ^ 63 \<and>
    1 \<le> length_bytes (?A ! nat 0) \<and> len ?A < 0 + 1 + length_bytes (?A ! nat 0) \<and>
    (0 + 1 < len ?A \<longrightarrow> ?A ! nat (0 + 1) \<noteq> 0)"
    by (simp add: len_def length_bytes_def)
  have b: "ReadSize ?S 0 = Inr (True, 1, 3) \<and> len ?S < 2 ^ 63 \<and> len ?S < 1 + 3 \<and> (1 + 3 :: int) < 2 ^ 63"
    by code_simp
  have c1: "ReadSize ?L 0 = Inr (False, 1, 4)" by code_simp
  have c2: "len ?L < 2 ^ 63" by (simp add: len_def)
  have c3: "sub_items ?L 1 [[0x41]] 2" by code_simp
  have c4: "ReadSize ?L 2 = Inr (True, 3, 3) \<and> len ?L < 3 + 3 \<and> (3 + 3 :: int) < 2 ^ 63" by code_simp
  from IncompleteInput_cases[of 0 ?A 0 0 0 0 "[]" 0] a
    IncompleteInput_cases[of 0 ?S 1 3 0 0 "[]" 0] b
    IncompleteInput_cases[of 0 ?L 0 0 1 4 "[[0x41]]" 2] c1 c2 c3 c4
  show ?thesis by auto
qed

end
